theory Spec2Isabelle
  imports Main "HOL-Library.Word"
begin

section \<open>Data model of nodes/nodeio.cpp\<close>

text \<open>
  The C++ type \<^verbatim>\<open>long\<close> of the keyframe times, the playhead and the clip offsets is the
  64-bit two's-complement integer of the LP64 targets. Comparisons read the word as
  signed (\<open><s\<close>); addition and subtraction wrap around, which is what the targets do
  where C++ leaves signed overflow undefined.
\<close>

type_synonym long = "64 word"

definition LONG_MIN :: long where
  "LONG_MIN = - (2 ^ 63)"

definition LONG_MAX :: long where
  "LONG_MAX = 2 ^ 63 - 1"

text \<open>
  Modelled from the spec: the enum \<^verbatim>\<open>olive::nodes::DataType\<close> is declared outside
  nodeio.cpp. The code uses one distinguished value, \<^verbatim>\<open>kInvalid\<close> ("no output type");
  every other enumerator is \<open>kData n\<close>.
\<close>

datatype DataType = kInvalid | kData nat

text \<open>A \<^verbatim>\<open>NodeIO*\<close> is an address in the heap of rows.\<close>

type_synonym addr = nat

text \<open>
  \<^verbatim>\<open>NodeEdgePtr\<close> is a shared pointer to an immutable pair of row pointers. Two
  pointers are equal when they point to the same object: \<open>edge_id\<close> is that identity,
  drawn from a counter at \<^verbatim>\<open>std::make_shared\<close>.
\<close>

record NodeEdge =
  edge_id :: nat
  "output" :: addr
  "input" :: addr

text \<open>
  Modelled from the spec: \<^verbatim>\<open>EffectField\<close> and its keyframes are declared outside
  nodeio.cpp, which reads \<^verbatim>\<open>f->keyframes\<close> and \<^verbatim>\<open>keyframes.at(i).time\<close>. The other
  members follow section 3 of the spec (a static value and an enabled flag).
\<close>

record 'v EffectKeyframe =
  time :: long
  data :: 'v

record 'v EffectField =
  keyframes :: "'v EffectKeyframe list"
  static_value :: 'v
  enabled :: bool

text \<open>The members of \<^verbatim>\<open>NodeIO\<close> (the trailing underscore of the C++ names dropped;
  \<open>row_id\<close> is \<^verbatim>\<open>id_\<close> and \<open>row_fields\<close> is \<^verbatim>\<open>fields_\<close>).\<close>

record 'v NodeIO =
  row_id :: string
  name :: string
  keyframable :: bool
  keyframing :: bool
  savable :: bool
  output_type :: DataType
  accepted_inputs :: "DataType list"
  row_fields :: "'v EffectField list"
  node_edges :: "NodeEdge list"

text \<open>\<^verbatim>\<open>Q_ASSERT\<close> aborts the program: a failed assertion is the error value.\<close>

datatype error = AssertionFailed

text \<open>
  The constructor. The parent pointer is asserted non-null by the source; the parent
  node itself lives outside this file and is not part of the row's state.
\<close>

definition NodeIO_new :: "string \<Rightarrow> string \<Rightarrow> bool \<Rightarrow> bool \<Rightarrow> 'v NodeIO" where
  "NodeIO_new i n sav kf =
     \<lparr>row_id = i, name = n, keyframable = kf, keyframing = False, savable = sav,
      output_type = kInvalid, accepted_inputs = [], row_fields = [], node_edges = []\<rparr>"

section \<open>Classification of a row as input or output\<close>

definition IsNodeInput :: "'v NodeIO \<Rightarrow> bool" where
  "IsNodeInput p = (accepted_inputs p \<noteq> [])"

definition IsNodeOutput :: "'v NodeIO \<Rightarrow> bool" where
  "IsNodeOutput p = (output_type p \<noteq> kInvalid)"

definition AddAcceptedNodeInput :: "DataType \<Rightarrow> 'v NodeIO \<Rightarrow> error + 'v NodeIO" where
  "AddAcceptedNodeInput t p =
     (if output_type p = kInvalid
      then Inr (p\<lparr>accepted_inputs := accepted_inputs p @ [t]\<rparr>)
      else Inl AssertionFailed)"

definition SetOutputDataType :: "DataType \<Rightarrow> 'v NodeIO \<Rightarrow> error + 'v NodeIO" where
  "SetOutputDataType t p =
     (if accepted_inputs p = []
      then Inr (p\<lparr>output_type := t\<rparr>)
      else Inl AssertionFailed)"

definition CanAcceptDataType :: "DataType \<Rightarrow> 'v NodeIO \<Rightarrow> bool" where
  "CanAcceptDataType t p = (if \<not> IsNodeInput p then False else t \<in> set (accepted_inputs p))"

text \<open>A sequence of classification calls on one row; the first failed assertion ends it.\<close>

datatype classify_call = CallAddAcceptedNodeInput DataType | CallSetOutputDataType DataType

fun classify :: "classify_call \<Rightarrow> 'v NodeIO \<Rightarrow> error + 'v NodeIO" where
  "classify (CallAddAcceptedNodeInput t) p = AddAcceptedNodeInput t p"
| "classify (CallSetOutputDataType t) p = SetOutputDataType t p"

fun classify_all :: "classify_call list \<Rightarrow> 'v NodeIO \<Rightarrow> error + 'v NodeIO" where
  "classify_all [] p = Inr p"
| "classify_all (c # cs) p =
     (case classify c p of Inl e \<Rightarrow> Inl e | Inr p' \<Rightarrow> classify_all cs p')"

section \<open>Edges between rows\<close>

text \<open>
  The part of the program state that \<^verbatim>\<open>ConnectEdge\<close> and \<^verbatim>\<open>DisconnectEdge\<close> touch:
  the rows behind the \<^verbatim>\<open>NodeIO*\<close> pointers, the counter the next edge's identity is
  drawn from, and the log of the rows whose \<^verbatim>\<open>EdgesChanged()\<close> signal was emitted (oldest
  first).
\<close>

record 'v graph =
  heap :: "addr \<Rightarrow> 'v NodeIO"
  next_edge :: nat
  edges_changed :: "addr list"

definition DisconnectEdge :: "NodeEdge \<Rightarrow> 'v graph \<Rightarrow> 'v graph" where
  "DisconnectEdge edge g =
     (let out = output edge;
          inp = input edge;
          h1 = (heap g)(out := (heap g out)\<lparr>node_edges := removeAll edge (node_edges (heap g out))\<rparr>);
          h2 = h1(inp := (h1 inp)\<lparr>node_edges := removeAll edge (node_edges (h1 inp))\<rparr>)
      in g\<lparr>heap := h2, edges_changed := edges_changed g @ [out]\<rparr>)"

text \<open>"Swap them if necessary": the pair (output, input) after lines 81 to 85.\<close>

definition swap_if_necessary :: "addr \<Rightarrow> addr \<Rightarrow> 'v graph \<Rightarrow> addr \<times> addr" where
  "swap_if_necessary out inp g = (if IsNodeOutput (heap g inp) then (inp, out) else (out, inp))"

definition ConnectEdge :: "addr \<Rightarrow> addr \<Rightarrow> 'v graph \<Rightarrow> error + 'v graph" where
  "ConnectEdge output0 input0 g =
     (if \<not> (IsNodeInput (heap g output0) \<noteq> IsNodeInput (heap g input0)) then Inl AssertionFailed
      else
        let (out, inp) = swap_if_necessary output0 input0 g;
            g1 = (case node_edges (heap g inp) of [] \<Rightarrow> g | first # _ \<Rightarrow> DisconnectEdge first g);
            edge = \<lparr>edge_id = next_edge g1, output = out, input = inp\<rparr>;
            h2 = (heap g1)(out := (heap g1 out)\<lparr>node_edges := node_edges (heap g1 out) @ [edge]\<rparr>);
            h3 = h2(inp := (h2 inp)\<lparr>node_edges := node_edges (h2 inp) @ [edge]\<rparr>)
        in Inr (g1\<lparr>heap := h3, next_edge := Suc (next_edge g1),
                    edges_changed := edges_changed g1 @ [out]\<rparr>))"

text \<open>A sequence of connect and disconnect calls; the first failed assertion ends it.\<close>

datatype graph_call = CallConnectEdge addr addr | CallDisconnectEdge NodeEdge

fun graph_step :: "graph_call \<Rightarrow> 'v graph \<Rightarrow> error + 'v graph" where
  "graph_step (CallConnectEdge a b) g = ConnectEdge a b g"
| "graph_step (CallDisconnectEdge e) g = Inr (DisconnectEdge e g)"

fun graph_run :: "graph_call list \<Rightarrow> 'v graph \<Rightarrow> error + 'v graph" where
  "graph_run [] g = Inr g"
| "graph_run (c # cs) g = (case graph_step c g of Inl e \<Rightarrow> Inl e | Inr g' \<Rightarrow> graph_run cs g')"

text \<open>Properties of a graph that the proofs about edges speak of.\<close>

definition classified :: "'v graph \<Rightarrow> bool" where
  "classified g = (\<forall>a. IsNodeInput (heap g a) \<noteq> IsNodeOutput (heap g a))"

definition single_input_edge :: "'v graph \<Rightarrow> bool" where
  "single_input_edge g = (\<forall>a. IsNodeInput (heap g a) \<longrightarrow> length (node_edges (heap g a)) \<le> 1)"

definition edges_incident :: "'v graph \<Rightarrow> bool" where
  "edges_incident g = (\<forall>a. \<forall>e \<in> set (node_edges (heap g a)). output e = a \<or> input e = a)"

section \<open>Keyframing\<close>

text \<open>
  What the row asks of its collaborators, none of which is in nodeio.cpp. The owning
  node gives its type and its current time (\<^verbatim>\<open>Now()\<close>, a timecode of some type \<open>'t\<close>
  that the row only passes on); the clip gives \<^verbatim>\<open>clip_in()\<close> and \<^verbatim>\<open>timeline_in()\<close>, the
  sequence its playhead; \<open>confirm\<close> is the answer of the message box
  (\<^verbatim>\<open>QMessageBox::Yes\<close> is \<open>True\<close>). The three methods of \<^verbatim>\<open>EffectField\<close> that the row
  calls are parameters: \<open>GetValueAt\<close>, \<open>SetValueAt\<close> and, for
  \<open>PrepareDataForKeyframing\<close>, the field it leaves behind. The node types are constants
  declared outside nodeio.cpp, which compares with \<^verbatim>\<open>EFFECT_TYPE_TRANSITION\<close> only; every
  other type is \<open>EFFECT_TYPE_EFFECT\<close> here.
\<close>

datatype effect_type = EFFECT_TYPE_TRANSITION | EFFECT_TYPE_EFFECT

record ('v, 't) env =
  parent_type :: effect_type
  Now :: 't
  clip_in :: long
  timeline_in :: long
  playhead :: long
  confirm :: bool
  GetValueAt :: "'v EffectField \<Rightarrow> 't \<Rightarrow> 'v"
  SetValueAt :: "'t \<Rightarrow> 'v \<Rightarrow> 'v EffectField \<Rightarrow> 'v EffectField"
  PrepareDataForKeyframing :: "bool \<Rightarrow> 'v EffectField \<Rightarrow> 'v EffectField"

text \<open>
  The undo commands that nodeio.cpp constructs. A field pointer is the field's index in
  \<^verbatim>\<open>fields_\<close>. \<open>FieldDataPrepared i b\<close> stands for the undoable step that field \<open>i\<close>'s
  \<^verbatim>\<open>PrepareDataForKeyframing(b, ca)\<close> records in \<^verbatim>\<open>ca\<close>.
\<close>

datatype undo_action =
    SetIsKeyframing bool
  | KeyframeDelete nat nat
  | KeyframeDataChange nat
  | FieldDataPrepared nat bool

type_synonym ComboAction = "undo_action list"

text \<open>
  Calls that leave the row: the signal \<^verbatim>\<open>KeyframingSetChanged\<close>, the viewer's
  \<^verbatim>\<open>seek\<close>, \<^verbatim>\<open>update_ui(false)\<close> and the effect panel's \<^verbatim>\<open>update_keyframes()\<close>.
\<close>

datatype call = KeyframingSetChanged bool | seek long | update_ui | update_keyframes

record 'v session =
  row :: "'v NodeIO"
  undo_stack :: "ComboAction list"
  calls :: "call list"

definition SetKeyframingInternal :: "('v, 't) env \<Rightarrow> bool \<Rightarrow> 'v session \<Rightarrow> 'v session" where
  "SetKeyframingInternal e b s =
     (if parent_type e \<noteq> EFFECT_TYPE_TRANSITION
      then s\<lparr>row := (row s)\<lparr>keyframing := b\<rparr>, calls := calls s @ [KeyframingSetChanged b]\<rparr>
      else s)"

text \<open>
  Modelled from the spec: the undo commands and the undo stack (undo/undo.h and
  undo/undostack.h) are not in the sources. Section 6 of the spec: pushing a command
  runs its apply-step. The apply-steps: \<^verbatim>\<open>SetIsKeyframing\<close> "flips the Port flag" through
  \<^verbatim>\<open>SetKeyframingInternal\<close>; \<^verbatim>\<open>KeyframeDelete\<close> is the "index-based removal" of one
  keyframe of one field; \<^verbatim>\<open>KeyframeDataChange\<close> and the step of
  \<^verbatim>\<open>PrepareDataForKeyframing\<close> record a change that the caller has already made to the
  field, so applying them changes nothing. \<open>removeAt\<close> is \<^verbatim>\<open>QVector::removeAt(i)\<close> for an
  index in range.
\<close>

definition removeAt :: "nat \<Rightarrow> 'a list \<Rightarrow> 'a list" where
  "removeAt i xs = take i xs @ drop (Suc i) xs"

definition delete_keyframe :: "nat \<Rightarrow> nat \<Rightarrow> 'v EffectField list \<Rightarrow> 'v EffectField list" where
  "delete_keyframe j i fs = fs[j := (fs ! j)\<lparr>keyframes := removeAt i (keyframes (fs ! j))\<rparr>]"

fun redo :: "('v, 't) env \<Rightarrow> undo_action \<Rightarrow> 'v session \<Rightarrow> 'v session" where
  "redo e (SetIsKeyframing b) s = SetKeyframingInternal e b s"
| "redo e (KeyframeDelete j i) s =
     s\<lparr>row := (row s)\<lparr>row_fields := delete_keyframe j i (row_fields (row s))\<rparr>\<rparr>"
| "redo e (KeyframeDataChange j) s = s"
| "redo e (FieldDataPrepared j b) s = s"

definition push :: "('v, 't) env \<Rightarrow> ComboAction \<Rightarrow> 'v session \<Rightarrow> 'v session" where
  "push e ca s = (let s' = fold (redo e) ca s in s'\<lparr>undo_stack := undo_stack s' @ [ca]\<rparr>)"

definition FieldCount :: "'v NodeIO \<Rightarrow> nat" where
  "FieldCount p = length (row_fields p)"

text \<open>
  The loop \<^verbatim>\<open>for (i...) Field(i)->PrepareDataForKeyframing(b, ca)\<close>: every field is
  prepared, and \<^verbatim>\<open>ca\<close> grows by one step per field, in field order.
\<close>

definition prepare_fields ::
  "('v, 't) env \<Rightarrow> bool \<Rightarrow> ComboAction \<Rightarrow> 'v session \<Rightarrow> 'v session \<times> ComboAction" where
  "prepare_fields e b ca s =
     (s\<lparr>row := (row s)\<lparr>row_fields := map (PrepareDataForKeyframing e b) (row_fields (row s))\<rparr>\<rparr>,
      ca @ map (\<lambda>i. FieldDataPrepared i b) [0..<FieldCount (row s)])"

definition SetKeyframingEnabled :: "('v, 't) env \<Rightarrow> bool \<Rightarrow> 'v session \<Rightarrow> 'v session" where
  "SetKeyframingEnabled e en s =
     (if en = keyframing (row s) then s
      else if en then
        (let (s1, ca) = prepare_fields e True [SetIsKeyframing True] s;
             s2 = push e ca s1
         in s2\<lparr>calls := calls s2 @ [update_ui]\<rparr>)
      else if confirm e then
        (let (s1, ca) = prepare_fields e False [] s;
             s2 = push e (ca @ [SetIsKeyframing False]) s1
         in s2\<lparr>calls := calls s2 @ [update_ui]\<rparr>)
      else SetKeyframingInternal e True s)"

subsection \<open>Jumping to the neighbouring keyframe\<close>

text \<open>Qt's \<^verbatim>\<open>qMax\<close> and \<^verbatim>\<open>qMin\<close> on \<^verbatim>\<open>long\<close>.\<close>

definition qMax :: "long \<Rightarrow> long \<Rightarrow> long" where
  "qMax a b = (if a <s b then b else a)"

definition qMin :: "long \<Rightarrow> long \<Rightarrow> long" where
  "qMin a b = (if a <s b then a else b)"

definition time_adjustment :: "('v, 't) env \<Rightarrow> long" where
  "time_adjustment e = timeline_in e - clip_in e"

text \<open>The two nested loops of \<^verbatim>\<open>GoToPreviousKeyframe\<close>, started at \<^verbatim>\<open>LONG_MIN\<close>.\<close>

definition previous_key :: "('v, 't) env \<Rightarrow> 'v EffectField list \<Rightarrow> long" where
  "previous_key e fs =
     fold (\<lambda>f key. fold (\<lambda>k key.
             let comp = time k + time_adjustment e
             in if comp <s playhead e then qMax comp key else key) (keyframes f) key)
          fs LONG_MIN"

definition GoToPreviousKeyframe :: "('v, 't) env \<Rightarrow> 'v session \<Rightarrow> 'v session" where
  "GoToPreviousKeyframe e s =
     (let key = previous_key e (row_fields (row s))
      in if key \<noteq> LONG_MIN then s\<lparr>calls := calls s @ [seek key]\<rparr> else s)"

text \<open>The two nested loops of \<^verbatim>\<open>GoToNextKeyframe\<close>, started at \<^verbatim>\<open>LONG_MAX\<close>.\<close>

definition next_key :: "('v, 't) env \<Rightarrow> 'v EffectField list \<Rightarrow> long" where
  "next_key e fs =
     fold (\<lambda>f key. fold (\<lambda>k key.
             let comp = time k - clip_in e + timeline_in e
             in if playhead e <s comp then qMin comp key else key) (keyframes f) key)
          fs LONG_MAX"

definition GoToNextKeyframe :: "('v, 't) env \<Rightarrow> 'v session \<Rightarrow> 'v session" where
  "GoToNextKeyframe e s =
     (let key = next_key e (row_fields (row s))
      in if key \<noteq> LONG_MAX then s\<lparr>calls := calls s @ [seek key]\<rparr> else s)"

subsection \<open>Toggling the keyframe at the playhead\<close>

text \<open>
  The first pair of loops of \<^verbatim>\<open>ToggleKeyframe\<close>: the parallel vectors \<^verbatim>\<open>key_fields\<close> and
  \<^verbatim>\<open>key_field_index\<close> as one list of pairs (field, keyframe index), in the order the
  loops append them.
\<close>

definition keys_at_playhead :: "('v, 't) env \<Rightarrow> 'v EffectField list \<Rightarrow> (nat \<times> nat) list" where
  "keys_at_playhead e fs =
     concat (map (\<lambda>j. map (\<lambda>i. (j, i))
                    (filter (\<lambda>i. time (keyframes (fs ! j) ! i) + time_adjustment e = playhead e)
                       [0..<length (keyframes (fs ! j))]))
               [0..<length fs])"

text \<open>
  The sorting loops (lines 310 to 327). The inner loop puts a pair before the first
  sorted pair whose index is smaller and appends it when there is none; the outer loop
  does so for every cached pair in turn.
\<close>

fun insert_reverse :: "nat \<times> nat \<Rightarrow> (nat \<times> nat) list \<Rightarrow> (nat \<times> nat) list" where
  "insert_reverse x [] = [x]"
| "insert_reverse x (y # ys) = (if snd y < snd x then x # y # ys else y # insert_reverse x ys)"

definition sort_reverse :: "(nat \<times> nat) list \<Rightarrow> (nat \<times> nat) list" where
  "sort_reverse ks = fold insert_reverse ks []"

definition SetKeyframeOnAllFields ::
  "('v, 't) env \<Rightarrow> ComboAction \<Rightarrow> 'v session \<Rightarrow> 'v session \<times> ComboAction" where
  "SetKeyframeOnAllFields e ca s =
     (s\<lparr>row := (row s)\<lparr>row_fields :=
             map (\<lambda>f. SetValueAt e (Now e) (GetValueAt e f (Now e)) f) (row_fields (row s))\<rparr>,
        calls := calls s @ [update_keyframes]\<rparr>,
      ca @ map KeyframeDataChange [0..<FieldCount (row s)])"

definition ToggleKeyframe :: "('v, 't) env \<Rightarrow> 'v session \<Rightarrow> 'v session" where
  "ToggleKeyframe e s =
     (let key_fields = keys_at_playhead e (row_fields (row s));
          (s1, ca) =
            (if key_fields = [] then SetKeyframeOnAllFields e [] s
             else (s, map (\<lambda>(j, i). KeyframeDelete j i) (sort_reverse key_fields)));
          s2 = push e ca s1
      in s2\<lparr>calls := calls s2 @ [update_ui]\<rparr>)"

text \<open>
  Modelled from the spec: \<^verbatim>\<open>EffectField::SetValueAt\<close> is not in the sources. Section 4.2 of
  the spec: with keyframing disabled it overwrites the static value; with keyframing
  enabled it overwrites the keyframe at that time in place or, when there is none,
  inserts one preserving the order of the times. The flag is the owning row's; \<open>frame\<close>
  turns the timecode the row passes into the frame the keyframes are indexed by. The
  row's calls go through the parameter \<open>SetValueAt\<close> of the surroundings; statements
  that need this contract assume that the parameter is this function.
\<close>

fun set_keyframe :: "long \<Rightarrow> 'v \<Rightarrow> 'v EffectKeyframe list \<Rightarrow> 'v EffectKeyframe list" where
  "set_keyframe t v [] = [\<lparr>time = t, data = v\<rparr>]"
| "set_keyframe t v (k # ks) =
     (if time k = t then k\<lparr>data := v\<rparr> # ks
      else if t <s time k then \<lparr>time = t, data = v\<rparr> # k # ks
      else k # set_keyframe t v ks)"

definition EffectField_SetValueAt ::
  "('t \<Rightarrow> long) \<Rightarrow> bool \<Rightarrow> 't \<Rightarrow> 'v \<Rightarrow> 'v EffectField \<Rightarrow> 'v EffectField" where
  "EffectField_SetValueAt frame keyframing_enabled t v f =
     (if keyframing_enabled then f\<lparr>keyframes := set_keyframe (frame t) v (keyframes f)\<rparr>
      else f\<lparr>static_value := v\<rparr>)"

subsection \<open>Notions of the statements and proofs about keyframes\<close>

text \<open>
  The converted keyframe times of a row: the time of every keyframe of every field,
  shifted by the clip's offset \<open>timeline_in - clip_in\<close>, in field order.
\<close>

definition converted_times :: "('v, 't) env \<Rightarrow> 'v EffectField list \<Rightarrow> long list" where
  "converted_times e fs = map (\<lambda>k. time k + (timeline_in e - clip_in e)) (concat (map keyframes fs))"

text \<open>One iteration of the inner loop of each search, on a converted time.\<close>

definition prev_step :: "long \<Rightarrow> long \<Rightarrow> long \<Rightarrow> long" where
  "prev_step p c key = (if c <s p then qMax c key else key)"

definition next_step :: "long \<Rightarrow> long \<Rightarrow> long \<Rightarrow> long" where
  "next_step p c key = (if p <s c then qMin c key else key)"

text \<open>The indices of a field's keyframes that sit at the playhead, ascending.\<close>

definition hits :: "('v, 't) env \<Rightarrow> 'v EffectField \<Rightarrow> nat list" where
  "hits e f =
     filter (\<lambda>i. time (keyframes f ! i) + time_adjustment e = playhead e) [0..<length (keyframes f)]"

section \<open>Concrete rows and graphs\<close>

text \<open>
  Three rows as the public interface builds them: one with an accepted input type, one
  with an output type, one left as constructed. In \<open>example_graph\<close> row 0 is the
  output row, row 1 the input row, and every other address holds an unclassified row;
  no edge exists yet.
\<close>

definition input_row :: "int NodeIO" where
  "input_row = (NodeIO_new ''in'' ''In'' True True)\<lparr>accepted_inputs := [kData 1]\<rparr>"

definition output_row :: "int NodeIO" where
  "output_row = (NodeIO_new ''out'' ''Out'' True True)\<lparr>output_type := kData 1\<rparr>"

definition plain_row :: "int NodeIO" where
  "plain_row = NodeIO_new ''row'' ''Row'' True True"

definition example_graph :: "int graph" where
  "example_graph =
     \<lparr>heap = (\<lambda>a. plain_row)(0 := output_row, 1 := input_row), next_edge = 0, edges_changed = []\<rparr>"

text \<open>
  A row with two fields and its surroundings. The clip starts at frame 5 of the timeline
  and at frame 2 of its media, so the offset is 3 and the keyframes sit at the converted
  times 5, 10, 15 (first field) and 10, 23 (second field); the playhead is at 10. The
  field methods of the example: the value at any time is the static value, and setting
  a value appends a keyframe.
\<close>

definition example_field :: "int EffectKeyframe list \<Rightarrow> int EffectField" where
  "example_field ks = \<lparr>keyframes = ks, static_value = 3, enabled = True\<rparr>"

definition example_env :: "(int, nat) env" where
  "example_env =
     \<lparr>parent_type = EFFECT_TYPE_EFFECT, Now = 7, clip_in = 2, timeline_in = 5, playhead = 10,
      confirm = False,
      GetValueAt = (\<lambda>f t. static_value f),
      SetValueAt = (\<lambda>t v f. f\<lparr>keyframes := keyframes f @ [\<lparr>time = of_nat t, data = v\<rparr>]\<rparr>),
      PrepareDataForKeyframing = (\<lambda>b f. f)\<rparr>"

definition example_session :: "int session" where
  "example_session =
     \<lparr>row = (NodeIO_new ''row'' ''Row'' True False)
              \<lparr>row_fields :=
                 [example_field [\<lparr>time = 2, data = 1\<rparr>, \<lparr>time = 7, data = 2\<rparr>, \<lparr>time = 12, data = 3\<rparr>],
                  example_field [\<lparr>time = 7, data = 4\<rparr>, \<lparr>time = 20, data = 5\<rparr>]]\<rparr>,
      undo_stack = [], calls = []\<rparr>"

text \<open>The same surroundings with the node a transition, and with the playhead at 33.\<close>

definition transition_env :: "(int, nat) env" where
  "transition_env = example_env\<lparr>parent_type := EFFECT_TYPE_TRANSITION\<rparr>"

definition later_env :: "(int, nat) env" where
  "later_env = example_env\<lparr>Now := 30, playhead := 33\<rparr>"

text \<open>A field with keyframes at the two ends of \<^verbatim>\<open>long\<close>, a clip with offset 0, playhead 0.\<close>

definition sentinel_env :: "(int, nat) env" where
  "sentinel_env = example_env\<lparr>clip_in := 0, timeline_in := 0, playhead := 0\<rparr>"

definition sentinel_session :: "int session" where
  "sentinel_session =
     \<lparr>row = (NodeIO_new ''row'' ''Row'' True True)
              \<lparr>row_fields :=
                 [example_field [\<lparr>time = LONG_MIN, data = 1\<rparr>, \<lparr>time = LONG_MAX, data = 2\<rparr>]]\<rparr>,
      undo_stack = [], calls = []\<rparr>"

text \<open>
  The row of the example with keyframing on, and the later surroundings with the
  spec's \<^verbatim>\<open>SetValueAt\<close> for a keyframing row and for a row that is not; a timecode is a
  frame number.
\<close>

definition keyframing_session :: "int session" where
  "keyframing_session = example_session\<lparr>row := (row example_session)\<lparr>keyframing := True\<rparr>\<rparr>"

definition keyframing_env :: "(int, nat) env" where
  "keyframing_env = later_env\<lparr>SetValueAt := EffectField_SetValueAt of_nat True\<rparr>"

definition static_env :: "(int, nat) env" where
  "static_env = later_env\<lparr>SetValueAt := EffectField_SetValueAt of_nat False\<rparr>"

section \<open>Classification: proofs\<close>

lemma classify_keeps_exclusive:
  assumes "\<not> (IsNodeInput p \<and> IsNodeOutput p)" and "classify c p = Inr p'"
  shows "\<not> (IsNodeInput p' \<and> IsNodeOutput p')"
  using assms
  by (cases c)
     (auto simp: AddAcceptedNodeInput_def SetOutputDataType_def IsNodeInput_def
        IsNodeOutput_def split: if_splits)

lemma classify_all_keeps_exclusive:
  assumes "\<not> (IsNodeInput p \<and> IsNodeOutput p)" and "classify_all cs p = Inr p'"
  shows "\<not> (IsNodeInput p' \<and> IsNodeOutput p')"
  using assms
proof (induction cs arbitrary: p)
  case Nil
  then show ?case by simp
next
  case (Cons c cs)
  from Cons.prems(2) obtain q where q: "classify c p = Inr q" and rest: "classify_all cs q = Inr p'"
    by (auto split: sum.splits)
  from classify_keeps_exclusive [OF Cons.prems(1) q] have "\<not> (IsNodeInput q \<and> IsNodeOutput q)" .
  from Cons.IH [OF this rest] show ?case .
qed

lemma NodeIO_new_unclassified:
  "\<not> IsNodeInput (NodeIO_new i n sav kf) \<and> \<not> IsNodeOutput (NodeIO_new i n sav kf)"
  by (simp add: NodeIO_new_def IsNodeInput_def IsNodeOutput_def)

text \<open>
  Claim C3. Whatever sequence of \<^verbatim>\<open>AddAcceptedNodeInput\<close> and \<^verbatim>\<open>SetOutputDataType\<close>
  calls a freshly constructed row receives, the row it ends with is never both an input
  and an output. The two guards behind it: adding an accepted input type fails on a row
  that has an output type, and setting the output type fails on a row whose list of
  accepted input types is non-empty.
\<close>

theorem C3_never_input_and_output:
  "(classify_all cs (NodeIO_new i n sav kf) = Inr p \<longrightarrow> \<not> (IsNodeInput p \<and> IsNodeOutput p))
   \<and> (IsNodeOutput q \<longrightarrow> AddAcceptedNodeInput t q = Inl AssertionFailed)
   \<and> (IsNodeInput q \<longrightarrow> SetOutputDataType t q = Inl AssertionFailed)"
proof (intro conjI impI)
  assume "classify_all cs (NodeIO_new i n sav kf) = Inr p"
  with NodeIO_new_unclassified [of i n sav kf] show "\<not> (IsNodeInput p \<and> IsNodeOutput p)"
    using classify_all_keeps_exclusive by blast
next
  assume "IsNodeOutput q"
  then show "AddAcceptedNodeInput t q = Inl AssertionFailed"
    by (simp add: IsNodeOutput_def AddAcceptedNodeInput_def)
next
  assume "IsNodeInput q"
  then show "SetOutputDataType t q = Inl AssertionFailed"
    by (simp add: IsNodeInput_def SetOutputDataType_def)
qed

theorem C3_never_input_and_output_witness:
  "classify_all [CallSetOutputDataType kInvalid, CallAddAcceptedNodeInput (kData 1)]
     (NodeIO_new ''in'' ''In'' True False :: int NodeIO)
     = Inr ((NodeIO_new ''in'' ''In'' True False) \<lparr>accepted_inputs := [kData 1]\<rparr>)
   \<and> IsNodeInput ((NodeIO_new ''in'' ''In'' True False :: int NodeIO) \<lparr>accepted_inputs := [kData 1]\<rparr>)
   \<and> \<not> IsNodeOutput ((NodeIO_new ''in'' ''In'' True False :: int NodeIO) \<lparr>accepted_inputs := [kData 1]\<rparr>)
   \<and> SetOutputDataType (kData 2)
        ((NodeIO_new ''in'' ''In'' True False :: int NodeIO) \<lparr>accepted_inputs := [kData 1]\<rparr>)
     = Inl AssertionFailed
   \<and> IsNodeOutput ((NodeIO_new ''out'' ''Out'' True False :: int NodeIO) \<lparr>output_type := kData 2\<rparr>)
   \<and> AddAcceptedNodeInput (kData 1)
        ((NodeIO_new ''out'' ''Out'' True False :: int NodeIO) \<lparr>output_type := kData 2\<rparr>)
     = Inl AssertionFailed"
proof -
  let ?p = "(NodeIO_new ''in'' ''In'' True False :: int NodeIO) \<lparr>accepted_inputs := [kData 1]\<rparr>"
  let ?q = "(NodeIO_new ''out'' ''Out'' True False :: int NodeIO) \<lparr>output_type := kData 2\<rparr>"
  have run: "classify_all [CallSetOutputDataType kInvalid, CallAddAcceptedNodeInput (kData 1)]
     (NodeIO_new ''in'' ''In'' True False :: int NodeIO) = Inr ?p"
    by (simp add: NodeIO_new_def SetOutputDataType_def AddAcceptedNodeInput_def)
  have inp: "IsNodeInput ?p" by (simp add: IsNodeInput_def)
  have outp: "IsNodeOutput ?q" by (simp add: IsNodeOutput_def NodeIO_new_def)
  from C3_never_input_and_output
    [of "[CallSetOutputDataType kInvalid, CallAddAcceptedNodeInput (kData 1)]"
        "''in''" "''In''" True False ?p ?q "kData 1"]
  have a: "\<not> (IsNodeInput ?p \<and> IsNodeOutput ?p)"
    and b: "AddAcceptedNodeInput (kData 1) ?q = Inl AssertionFailed"
    using run outp by blast+
  from C3_never_input_and_output [of "[]" "''in''" "''In''" True False _ ?p "kData 2"] inp
  have c: "SetOutputDataType (kData 2) ?p = Inl AssertionFailed" by blast
  from run inp a b c outp show ?thesis by blast
qed

section \<open>Edges: proofs\<close>

lemma heap_DisconnectEdge:
  "heap (DisconnectEdge e g) a =
     (if a = output e \<or> a = input e
      then (heap g a)\<lparr>node_edges := removeAll e (node_edges (heap g a))\<rparr>
      else heap g a)"
  by (simp add: DisconnectEdge_def Let_def)

lemma IsNodeInput_node_edges [simp]: "IsNodeInput (p\<lparr>node_edges := es\<rparr>) = IsNodeInput p"
  by (simp add: IsNodeInput_def)

lemma IsNodeOutput_node_edges [simp]: "IsNodeOutput (p\<lparr>node_edges := es\<rparr>) = IsNodeOutput p"
  by (simp add: IsNodeOutput_def)

lemma DisconnectEdge_class:
  "IsNodeInput (heap (DisconnectEdge e g) a) = IsNodeInput (heap g a)"
  "IsNodeOutput (heap (DisconnectEdge e g) a) = IsNodeOutput (heap g a)"
  by (simp_all add: heap_DisconnectEdge)

lemma DisconnectEdge_edges_subset:
  "set (node_edges (heap (DisconnectEdge e g) a)) \<subseteq> set (node_edges (heap g a))"
  by (auto simp: heap_DisconnectEdge)

lemma DisconnectEdge_length:
  "length (node_edges (heap (DisconnectEdge e g) a)) \<le> length (node_edges (heap g a))"
  by (simp add: heap_DisconnectEdge)

lemma DisconnectEdge_keeps:
  assumes "classified g" "single_input_edge g" "edges_incident g"
  shows "classified (DisconnectEdge e g) \<and> single_input_edge (DisconnectEdge e g)
         \<and> edges_incident (DisconnectEdge e g)"
proof (intro conjI)
  show "classified (DisconnectEdge e g)"
    using assms(1) by (simp add: classified_def DisconnectEdge_class)
  show "single_input_edge (DisconnectEdge e g)"
    unfolding single_input_edge_def
  proof (intro allI impI)
    fix a assume "IsNodeInput (heap (DisconnectEdge e g) a)"
    then have "IsNodeInput (heap g a)" by (simp add: DisconnectEdge_class)
    with assms(2) have "length (node_edges (heap g a)) \<le> 1" by (simp add: single_input_edge_def)
    with DisconnectEdge_length [of e g a] show "length (node_edges (heap (DisconnectEdge e g) a)) \<le> 1"
      by linarith
  qed
  show "edges_incident (DisconnectEdge e g)"
    using assms(3) DisconnectEdge_edges_subset [of e g] unfolding edges_incident_def by blast
qed

lemma first_edge_removed:
  assumes "edges_incident g" and "length (node_edges (heap g a)) \<le> 1"
      and "node_edges (heap g a) = first # rest"
  shows "node_edges (heap (DisconnectEdge first g) a) = []"
proof -
  from assms(2,3) have rest: "rest = []" by simp
  from assms(1,3) have "output first = a \<or> input first = a"
    by (auto simp: edges_incident_def)
  then show ?thesis using assms(3) rest by (auto simp: heap_DisconnectEdge)
qed

lemma ConnectEdge_keeps:
  assumes "classified g" "single_input_edge g" "edges_incident g"
      and "ConnectEdge a b g = Inr g'"
  shows "classified g' \<and> single_input_edge g' \<and> edges_incident g'"
proof -
  from assms(4) have ne: "IsNodeInput (heap g a) \<noteq> IsNodeInput (heap g b)"
    by (auto simp: ConnectEdge_def split: if_splits)
  obtain out inp where sw: "swap_if_necessary a b g = (out, inp)" by (cases "swap_if_necessary a b g")
  from sw ne assms(1) have inp: "IsNodeInput (heap g inp)" and out: "\<not> IsNodeInput (heap g out)"
    by (auto simp: swap_if_necessary_def classified_def split: if_splits)
  define gd where "gd = (case node_edges (heap g inp) of [] \<Rightarrow> g | first # _ \<Rightarrow> DisconnectEdge first g)"
  define edge where "edge = \<lparr>edge_id = next_edge gd, output = out, input = inp\<rparr>"
  have gd_inv: "classified gd \<and> single_input_edge gd \<and> edges_incident gd"
    using assms(1-3) DisconnectEdge_keeps unfolding gd_def by (auto split: list.splits)
  have gd_class: "IsNodeInput (heap gd x) = IsNodeInput (heap g x)" for x
    unfolding gd_def by (simp add: DisconnectEdge_class split: list.splits)
  have gd_empty: "node_edges (heap gd inp) = []"
  proof (cases "node_edges (heap g inp)")
    case Nil
    then show ?thesis by (simp add: gd_def)
  next
    case (Cons first rest)
    from assms(2) inp have "length (node_edges (heap g inp)) \<le> 1" by (simp add: single_input_edge_def)
    from first_edge_removed [OF assms(3) this Cons] Cons show ?thesis by (simp add: gd_def)
  qed
  from out inp have neq: "out \<noteq> inp" by auto
  have heap': "heap g' x =
      (if x = out \<or> x = inp then (heap gd x)\<lparr>node_edges := node_edges (heap gd x) @ [edge]\<rparr>
       else heap gd x)" for x
    using assms(4) ne sw neq
    by (auto simp: ConnectEdge_def Let_def gd_def edge_def split: if_splits)
  show ?thesis
  proof (intro conjI)
    show "classified g'" using gd_inv by (simp add: classified_def heap')
    show "single_input_edge g'"
      unfolding single_input_edge_def
    proof (intro allI impI)
      fix x assume x: "IsNodeInput (heap g' x)"
      then have xin: "IsNodeInput (heap g x)" by (simp add: heap' gd_class split: if_splits)
      show "length (node_edges (heap g' x)) \<le> 1"
      proof (cases "x = inp")
        case True
        then show ?thesis by (simp add: heap' gd_empty)
      next
        case False
        with xin out have "x \<noteq> out" by auto
        with False have "heap g' x = heap gd x" by (simp add: heap')
        moreover from gd_inv xin have "length (node_edges (heap gd x)) \<le> 1"
          by (simp add: single_input_edge_def gd_class)
        ultimately show ?thesis by simp
      qed
    qed
    show "edges_incident g'"
      using gd_inv unfolding edges_incident_def by (auto simp: heap' edge_def)
  qed
qed

lemma graph_run_keeps:
  assumes "classified g" "single_input_edge g" "edges_incident g"
      and "graph_run cs g = Inr g'"
  shows "classified g' \<and> single_input_edge g' \<and> edges_incident g'"
  using assms
proof (induction cs arbitrary: g)
  case Nil
  then show ?case by simp
next
  case (Cons c cs)
  from Cons.prems(4) obtain h where h: "graph_step c g = Inr h" and rest: "graph_run cs h = Inr g'"
    by (auto split: sum.splits)
  have "classified h \<and> single_input_edge h \<and> edges_incident h"
  proof (cases c)
    case (CallConnectEdge a b)
    with h Cons.prems(1-3) show ?thesis using ConnectEdge_keeps by auto
  next
    case (CallDisconnectEdge e)
    with h Cons.prems(1-3) show ?thesis using DisconnectEdge_keeps by auto
  qed
  with Cons.IH rest show ?case by blast
qed

text \<open>
  Where every row is an input or an output and never both, connecting replaces: no
  sequence of \<^verbatim>\<open>ConnectEdge\<close> and \<^verbatim>\<open>DisconnectEdge\<close> calls gives an input row a second
  edge.
\<close>

lemma classified_rows_keep_single_input_edge:
  assumes "classified g" "single_input_edge g" "edges_incident g"
      and "graph_run cs g = Inr g'"
      and "IsNodeInput (heap g' a)"
  shows "length (node_edges (heap g' a)) \<le> 1"
  using graph_run_keeps [OF assms(1-4)] assms(5) by (simp add: single_input_edge_def)

lemma swap_if_necessary_sym:
  assumes "\<not> (IsNodeInput (heap g a) \<and> IsNodeOutput (heap g a))"
      and "\<not> (IsNodeInput (heap g b) \<and> IsNodeOutput (heap g b))"
      and "IsNodeInput (heap g a) \<and> IsNodeOutput (heap g b)
           \<or> IsNodeOutput (heap g a) \<and> IsNodeInput (heap g b)"
  shows "swap_if_necessary a b g = swap_if_necessary b a g"
  using assms by (auto simp: swap_if_necessary_def)

lemma DisconnectEdge_events: "edges_changed (DisconnectEdge e g) = edges_changed g @ [output e]"
  by (simp add: DisconnectEdge_def Let_def)

lemma ConnectEdge_events:
  assumes "ConnectEdge a b g = Inr g'"
  shows "edges_changed g' = edges_changed g
           @ (case node_edges (heap g (snd (swap_if_necessary a b g))) of
                [] \<Rightarrow> [] | first # _ \<Rightarrow> [output first])
           @ [fst (swap_if_necessary a b g)]"
  using assms
  by (auto simp: ConnectEdge_def Let_def DisconnectEdge_events
           split: if_splits prod.splits list.splits)

lemmas example_rows =
  example_graph_def input_row_def output_row_def plain_row_def NodeIO_new_def
  IsNodeInput_def IsNodeOutput_def

lemmas connect_unfold = ConnectEdge_def swap_if_necessary_def DisconnectEdge_def Let_def

text \<open>
  Claim C1, at a failing input. Row 1 is an input row; rows 2 and 3 are as the
  constructor leaves them, neither input nor output. \<^verbatim>\<open>ConnectEdge(row1, row2)\<close> and then
  \<^verbatim>\<open>ConnectEdge(row1, row3)\<close> both pass the assertion, neither disconnects anything, and
  the input row ends with two edges.
\<close>

theorem C1_input_row_with_two_edges:
  "(case graph_run [CallConnectEdge 1 2, CallConnectEdge 1 3] example_graph of
      Inl err \<Rightarrow> False
    | Inr g \<Rightarrow>
        IsNodeInput (heap g 1)
        \<and> node_edges (heap g 1) =
            [\<lparr>edge_id = 0, output = 1, input = 2\<rparr>, \<lparr>edge_id = 1, output = 1, input = 3\<rparr>])"
  by (simp add: example_rows connect_unfold)

text \<open>
  Claim C2, at a failing input. \<^verbatim>\<open>ConnectEdge(row1, row2)\<close> with row 1 an input row and
  row 2 neither input nor output passes the assertion and makes an edge whose output
  end is the input row and whose input end is the unclassified row.
\<close>

theorem C2_edge_with_unclassified_end:
  "(case ConnectEdge 1 2 example_graph of
      Inl err \<Rightarrow> False
    | Inr g \<Rightarrow>
        node_edges (heap g 2) = [\<lparr>edge_id = 0, output = 1, input = 2\<rparr>]
        \<and> \<not> IsNodeOutput (heap g 1)
        \<and> \<not> IsNodeInput (heap g 2) \<and> \<not> IsNodeOutput (heap g 2))"
  by (simp add: example_rows connect_unfold)

lemma swap_if_necessary_pair:
  "swap_if_necessary a b g = (a, b) \<or> swap_if_necessary a b g = (b, a)"
  by (simp add: swap_if_necessary_def)

lemma ConnectEdge_ends_differ:
  assumes "ConnectEdge a b g = Inr g'"
  shows "fst (swap_if_necessary a b g) \<noteq> snd (swap_if_necessary a b g)"
proof -
  from assms have "IsNodeInput (heap g a) \<noteq> IsNodeInput (heap g b)"
    by (auto simp: ConnectEdge_def split: if_splits)
  then have "a \<noteq> b" by auto
  with swap_if_necessary_pair [of a b g] show ?thesis by auto
qed

lemma graph_run_Cons_Inr:
  "graph_step c g = Inr h \<Longrightarrow> graph_run cs h = r \<Longrightarrow> graph_run (c # cs) g = r"
  by simp

text \<open>
  Claim C7, as the code has it. \<^verbatim>\<open>DisconnectEdge\<close> emits \<^verbatim>\<open>EdgesChanged\<close> once, on the
  edge's output row. \<^verbatim>\<open>ConnectEdge\<close> emits it on the output row of the edge it replaces,
  when the input row had one, and then once on the new edge's output row. No signal is
  emitted for a row as an edge's input end: the new edge's input row is among the rows
  notified exactly when it is itself the output row of the edge being replaced.
\<close>

theorem C7_only_output_row_notified:
  "edges_changed (DisconnectEdge e g) = edges_changed g @ [output e]
   \<and> (ConnectEdge a b g = Inr g' \<longrightarrow>
        edges_changed g' = edges_changed g
          @ (case node_edges (heap g (snd (swap_if_necessary a b g))) of
               [] \<Rightarrow> [] | first # _ \<Rightarrow> [output first])
          @ [fst (swap_if_necessary a b g)]
        \<and> (snd (swap_if_necessary a b g) \<in> set (drop (length (edges_changed g)) (edges_changed g'))
             = (case node_edges (heap g (snd (swap_if_necessary a b g))) of
                  [] \<Rightarrow> False | first # _ \<Rightarrow> output first = snd (swap_if_necessary a b g))))"
proof (intro conjI impI)
  show "edges_changed (DisconnectEdge e g) = edges_changed g @ [output e]"
    by (rule DisconnectEdge_events)
next
  assume c: "ConnectEdge a b g = Inr g'"
  show ev: "edges_changed g' = edges_changed g
          @ (case node_edges (heap g (snd (swap_if_necessary a b g))) of
               [] \<Rightarrow> [] | first # _ \<Rightarrow> [output first])
          @ [fst (swap_if_necessary a b g)]"
    by (rule ConnectEdge_events [OF c])
  from ConnectEdge_ends_differ [OF c]
  show "snd (swap_if_necessary a b g) \<in> set (drop (length (edges_changed g)) (edges_changed g'))
             = (case node_edges (heap g (snd (swap_if_necessary a b g))) of
                  [] \<Rightarrow> False | first # _ \<Rightarrow> output first = snd (swap_if_necessary a b g))"
    unfolding ev by (auto split: list.splits)
qed

theorem C7_only_output_row_notified_witness:
  "(case ConnectEdge 0 1 example_graph of
      Inl err \<Rightarrow> False
    | Inr g \<Rightarrow> edges_changed g = [0] \<and> swap_if_necessary 0 1 example_graph = (0, 1))
   \<and> (case graph_run [CallConnectEdge 1 2, CallConnectEdge 0 1] example_graph of
      Inl err \<Rightarrow> False
    | Inr g \<Rightarrow> edges_changed g = [1, 1, 0])"
proof -
  obtain g where g: "ConnectEdge 0 1 example_graph = Inr g"
    by (simp add: example_rows connect_unfold)
  have sw: "swap_if_necessary 0 1 example_graph = (0, 1)"
    by (simp add: example_rows swap_if_necessary_def)
  have "node_edges (heap example_graph 1) = []" "edges_changed example_graph = []"
    by (simp_all add: example_rows)
  with C7_only_output_row_notified [of _ example_graph 0 1 g] g sw
  have "edges_changed g = [0]" by simp
  with g sw have first: "(case ConnectEdge 0 1 example_graph of
      Inl err \<Rightarrow> False
    | Inr g \<Rightarrow> edges_changed g = [0] \<and> swap_if_necessary 0 1 example_graph = (0, 1))" by simp
  let ?g1 = "projr (ConnectEdge 1 2 example_graph)"
  have e1: "ConnectEdge 1 2 example_graph = Inr ?g1"
    by (simp add: example_rows connect_unfold)
  have p1: "edges_changed ?g1 = [1]"
           "node_edges (heap ?g1 1) = [\<lparr>edge_id = 0, output = 1, input = 2\<rparr>]"
           "swap_if_necessary 0 1 ?g1 = (0, 1)"
    by (simp_all add: example_rows connect_unfold)
  obtain g2 where e2: "ConnectEdge 0 1 ?g1 = Inr g2"
    by (simp add: example_rows connect_unfold)
  from C7_only_output_row_notified [of _ ?g1 0 1 g2] e2 p1
  have "edges_changed g2 = [1, 1, 0]" by simp
  moreover have "graph_run [CallConnectEdge 1 2, CallConnectEdge 0 1] example_graph = Inr g2"
  proof -
    have s1: "graph_step (CallConnectEdge 1 2) example_graph = Inr ?g1"
      unfolding graph_step.simps by (rule e1)
    have s2: "graph_step (CallConnectEdge 0 1) ?g1 = Inr g2"
      unfolding graph_step.simps by (rule e2)
    show ?thesis
      by (rule graph_run_Cons_Inr [OF s1 graph_run_Cons_Inr [OF s2 graph_run.simps(1)]])
  qed
  ultimately have "(case graph_run [CallConnectEdge 1 2, CallConnectEdge 0 1] example_graph of
      Inl err \<Rightarrow> False
    | Inr g \<Rightarrow> edges_changed g = [1, 1, 0])" by simp
  with first show ?thesis by simp
qed

theorem C7_input_row_not_notified:
  "(case ConnectEdge 0 1 example_graph of
      Inl err \<Rightarrow> False
    | Inr g \<Rightarrow>
        node_edges (heap g 1) = [\<lparr>edge_id = 0, output = 0, input = 1\<rparr>]
        \<and> 1 \<notin> set (edges_changed g))
   \<and> 1 \<notin> set (edges_changed (DisconnectEdge \<lparr>edge_id = 0, output = 0, input = 1\<rparr> example_graph))"
  by (simp add: example_rows connect_unfold)

text \<open>
  Claim C10. For two rows that are never both input and output, one of them an input
  and the other an output, \<^verbatim>\<open>ConnectEdge(a, b)\<close> and \<^verbatim>\<open>ConnectEdge(b, a)\<close> succeed and leave
  the same state: the same edge, the same edge lists and the same signals.
\<close>

theorem C10_ConnectEdge_symmetric:
  assumes "\<not> (IsNodeInput (heap g a) \<and> IsNodeOutput (heap g a))"
      and "\<not> (IsNodeInput (heap g b) \<and> IsNodeOutput (heap g b))"
      and "IsNodeInput (heap g a) \<and> IsNodeOutput (heap g b)
           \<or> IsNodeOutput (heap g a) \<and> IsNodeInput (heap g b)"
  shows "ConnectEdge a b g = ConnectEdge b a g \<and> (\<exists>g'. ConnectEdge a b g = Inr g')"
proof -
  have sw: "swap_if_necessary a b g = swap_if_necessary b a g"
    using assms by (rule swap_if_necessary_sym)
  have ne: "IsNodeInput (heap g a) \<noteq> IsNodeInput (heap g b)" using assms by blast
  have "ConnectEdge a b g = ConnectEdge b a g"
    unfolding ConnectEdge_def using ne sw by auto
  moreover have "\<exists>g'. ConnectEdge a b g = Inr g'"
    unfolding ConnectEdge_def using ne by (simp add: Let_def split: prod.splits)
  ultimately show ?thesis by blast
qed

theorem C10_ConnectEdge_symmetric_witness:
  "ConnectEdge 0 1 example_graph = ConnectEdge 1 0 example_graph
   \<and> (\<exists>g'. ConnectEdge 0 1 example_graph = Inr g')"
proof -
  have a: "\<not> (IsNodeInput (heap example_graph 0) \<and> IsNodeOutput (heap example_graph 0))"
    by (simp add: example_rows)
  have b: "\<not> (IsNodeInput (heap example_graph 1) \<and> IsNodeOutput (heap example_graph 1))"
    by (simp add: example_rows)
  have c: "IsNodeInput (heap example_graph 0) \<and> IsNodeOutput (heap example_graph 1)
           \<or> IsNodeOutput (heap example_graph 0) \<and> IsNodeInput (heap example_graph 1)"
    by (simp add: example_rows)
  show ?thesis by (rule C10_ConnectEdge_symmetric [OF a b c])
qed

section \<open>Keyframing: proofs\<close>

lemmas example_sessions = example_session_def example_env_def example_field_def NodeIO_new_def

subsection \<open>Disabling refused\<close>

lemma same_flag: "keyframing r \<Longrightarrow> r\<lparr>keyframing := True\<rparr> = r"
  by (cases r) simp

text \<open>
  Claim C6. \<^verbatim>\<open>SetKeyframingEnabled(false)\<close> on a row that is keyframing, with the
  confirmation refused: the flag is what it was, every field is what it was (the whole
  row is), and the undo stack has not grown.
\<close>

theorem C6_refused_disable_changes_nothing:
  assumes "keyframing (row s)" and "\<not> confirm e"
  shows "keyframing (row (SetKeyframingEnabled e False s)) = keyframing (row s)
         \<and> row_fields (row (SetKeyframingEnabled e False s)) = row_fields (row s)
         \<and> row (SetKeyframingEnabled e False s) = row s
         \<and> undo_stack (SetKeyframingEnabled e False s) = undo_stack s"
  using assms by (simp add: SetKeyframingEnabled_def SetKeyframingInternal_def same_flag)

theorem C6_refused_disable_changes_nothing_witness:
  "keyframing (row (example_session\<lparr>row := (row example_session)\<lparr>keyframing := True\<rparr>\<rparr>))
   \<and> \<not> confirm example_env
   \<and> row (SetKeyframingEnabled example_env False (example_session\<lparr>row := (row example_session)\<lparr>keyframing := True\<rparr>\<rparr>))
       = (row example_session)\<lparr>keyframing := True\<rparr>
   \<and> undo_stack (SetKeyframingEnabled example_env False (example_session\<lparr>row := (row example_session)\<lparr>keyframing := True\<rparr>\<rparr>)) = []"
proof -
  let ?s = "example_session\<lparr>row := (row example_session)\<lparr>keyframing := True\<rparr>\<rparr>"
  have a: "keyframing (row ?s)" by simp
  have b: "\<not> confirm example_env" by (simp add: example_env_def)
  from C6_refused_disable_changes_nothing [OF a b] have "row (SetKeyframingEnabled example_env False ?s) = row ?s"
    and "undo_stack (SetKeyframingEnabled example_env False ?s) = undo_stack ?s" by simp_all
  moreover have "undo_stack ?s = []" by (simp add: example_session_def)
  ultimately show ?thesis using a b by simp
qed

subsection \<open>The flag and \<^verbatim>\<open>keyframable_\<close>\<close>

lemma fold_redo_keyframable:
  "fold (redo e) ca (s\<lparr>row := (row s)\<lparr>keyframable := k\<rparr>\<rparr>)
     = (fold (redo e) ca s)\<lparr>row := (row (fold (redo e) ca s))\<lparr>keyframable := k\<rparr>\<rparr>"
proof (induction ca arbitrary: s)
  case Nil
  show ?case by simp
next
  case (Cons a ca)
  have step: "redo e a (s\<lparr>row := (row s)\<lparr>keyframable := k\<rparr>\<rparr>)
                = (redo e a s)\<lparr>row := (row (redo e a s))\<lparr>keyframable := k\<rparr>\<rparr>"
    by (cases a) (simp_all add: SetKeyframingInternal_def)
  show ?case by (simp add: step Cons.IH)
qed

lemma push_keyframable:
  "push e ca (s\<lparr>row := (row s)\<lparr>keyframable := k\<rparr>\<rparr>)
     = (push e ca s)\<lparr>row := (row (push e ca s))\<lparr>keyframable := k\<rparr>\<rparr>"
  by (simp add: push_def Let_def fold_redo_keyframable)

lemma SetKeyframingEnabled_ignores_keyframable:
  "SetKeyframingEnabled e en (s\<lparr>row := (row s)\<lparr>keyframable := k\<rparr>\<rparr>)
     = (SetKeyframingEnabled e en s)\<lparr>row := (row (SetKeyframingEnabled e en s))\<lparr>keyframable := k\<rparr>\<rparr>"
proof -
  have prep: "prepare_fields e b ca (s\<lparr>row := (row s)\<lparr>keyframable := k\<rparr>\<rparr>)
      = ((fst (prepare_fields e b ca s))\<lparr>row := (row (fst (prepare_fields e b ca s)))\<lparr>keyframable := k\<rparr>\<rparr>,
         snd (prepare_fields e b ca s))" for b ca
    by (simp add: prepare_fields_def FieldCount_def)
  show ?thesis
    by (simp add: SetKeyframingEnabled_def prep push_keyframable split_beta Let_def
          SetKeyframingInternal_def)
qed

lemma fold_redo_keeps_keyframable: "keyframable (row (fold (redo e) ca s)) = keyframable (row s)"
proof (induction ca arbitrary: s)
  case Nil
  show ?case by simp
next
  case (Cons a ca)
  have "keyframable (row (redo e a s)) = keyframable (row s)"
    by (cases a) (simp_all add: SetKeyframingInternal_def)
  then show ?case by (simp add: Cons.IH)
qed

lemma SetKeyframingEnabled_keeps_keyframable:
  "keyframable (row (SetKeyframingEnabled e en s)) = keyframable (row s)"
  by (simp add: SetKeyframingEnabled_def prepare_fields_def push_def Let_def
        fold_redo_keeps_keyframable SetKeyframingInternal_def)

text \<open>
  Claim C8, as the code has it. The constructor leaves the keyframing flag false.
  \<^verbatim>\<open>SetKeyframingInternal(b)\<close> sets it to \<open>b\<close> when the owning node is not a transition
  and leaves it otherwise; \<^verbatim>\<open>keyframable_\<close> is neither read nor written:
  \<^verbatim>\<open>SetKeyframingEnabled\<close> does to a row what it does to the same row with another
  value of \<^verbatim>\<open>keyframable_\<close>.
\<close>

theorem C8_flag_ignores_keyframable:
  "keyframing (NodeIO_new i n sav kf :: 'v NodeIO) = False
   \<and> keyframing (row (SetKeyframingInternal e b s))
       = (if parent_type e \<noteq> EFFECT_TYPE_TRANSITION then b else keyframing (row s))
   \<and> keyframable (row (SetKeyframingInternal e b s)) = keyframable (row s)
   \<and> keyframable (row (SetKeyframingEnabled e b s)) = keyframable (row s)
   \<and> SetKeyframingEnabled e b (s\<lparr>row := (row s)\<lparr>keyframable := k\<rparr>\<rparr>)
       = (SetKeyframingEnabled e b s)\<lparr>row := (row (SetKeyframingEnabled e b s))\<lparr>keyframable := k\<rparr>\<rparr>"
  by (simp add: NodeIO_new_def SetKeyframingInternal_def SetKeyframingEnabled_keeps_keyframable
        SetKeyframingEnabled_ignores_keyframable)

theorem C8_flag_ignores_keyframable_witness:
  "keyframing (row (SetKeyframingInternal example_env True example_session))
   \<and> \<not> keyframing (row (SetKeyframingInternal transition_env True example_session))
   \<and> SetKeyframingEnabled example_env True
         (example_session\<lparr>row := (row example_session)\<lparr>keyframable := True\<rparr>\<rparr>)
       = (SetKeyframingEnabled example_env True example_session)
           \<lparr>row := (row (SetKeyframingEnabled example_env True example_session))\<lparr>keyframable := True\<rparr>\<rparr>"
proof -
  have "parent_type example_env \<noteq> EFFECT_TYPE_TRANSITION"
       "parent_type transition_env = EFFECT_TYPE_TRANSITION"
       "\<not> keyframing (row example_session)"
    by (simp_all add: example_sessions transition_env_def)
  with C8_flag_ignores_keyframable [of "''row''" "''Row''" True False example_env True example_session True]
       C8_flag_ignores_keyframable [of "''row''" "''Row''" True False transition_env True example_session True]
  show ?thesis by presburger
qed

text \<open>
  The claim fails on a row constructed with \<^verbatim>\<open>keyframable == false\<close> whose node is not a
  transition: \<^verbatim>\<open>SetKeyframingInternal(true)\<close> sets the flag, and so does
  \<^verbatim>\<open>SetKeyframingEnabled(true)\<close> when the pushed \<^verbatim>\<open>SetIsKeyframing\<close> is applied.
\<close>

theorem C8_flag_set_on_non_keyframable_row:
  "\<not> keyframable (row example_session)
   \<and> \<not> keyframing (row example_session)
   \<and> keyframing (row (SetKeyframingInternal example_env True example_session))
   \<and> \<not> keyframable (row (SetKeyframingInternal example_env True example_session))
   \<and> keyframing (row (SetKeyframingEnabled example_env True example_session))"
  by (simp add: example_sessions SetKeyframingInternal_def SetKeyframingEnabled_def
        prepare_fields_def push_def FieldCount_def Let_def)

subsection \<open>Rows of a transition\<close>

lemma SetKeyframingInternal_transition:
  "parent_type e = EFFECT_TYPE_TRANSITION \<Longrightarrow> SetKeyframingInternal e b s = s"
  by (simp add: SetKeyframingInternal_def)

lemma fold_redo_transition:
  assumes "parent_type e = EFFECT_TYPE_TRANSITION"
      and "\<forall>a \<in> set ca. case a of SetIsKeyframing b \<Rightarrow> True | FieldDataPrepared j b \<Rightarrow> True
                           | KeyframeDelete j i \<Rightarrow> False | KeyframeDataChange j \<Rightarrow> False"
  shows "fold (redo e) ca s = s"
  using assms(2)
proof (induction ca)
  case Nil
  show ?case by simp
next
  case (Cons a ca)
  from Cons.prems have "redo e a s = s"
    by (cases a) (simp_all add: SetKeyframingInternal_transition [OF assms(1)])
  with Cons show ?case by simp
qed

lemma push_transition:
  assumes "parent_type e = EFFECT_TYPE_TRANSITION"
      and "\<forall>a \<in> set ca. case a of SetIsKeyframing b \<Rightarrow> True | FieldDataPrepared j b \<Rightarrow> True
                           | KeyframeDelete j i \<Rightarrow> False | KeyframeDataChange j \<Rightarrow> False"
  shows "push e ca s = s\<lparr>undo_stack := undo_stack s @ [ca]\<rparr>"
  by (simp add: push_def Let_def fold_redo_transition [OF assms])

lemma SetKeyframingEnabled_transition:
  assumes "parent_type e = EFFECT_TYPE_TRANSITION"
  shows "SetKeyframingEnabled e en s =
     (if en = keyframing (row s) \<or> \<not> en \<and> \<not> confirm e then s
      else s\<lparr>row := (row s)\<lparr>row_fields := map (PrepareDataForKeyframing e en) (row_fields (row s))\<rparr>,
             undo_stack := undo_stack s @
               [if en then SetIsKeyframing True # map (\<lambda>i. FieldDataPrepared i True) [0..<FieldCount (row s)]
                else map (\<lambda>i. FieldDataPrepared i False) [0..<FieldCount (row s)] @ [SetIsKeyframing False]],
             calls := calls s @ [update_ui]\<rparr>)"
proof -
  have p1: "push e (SetIsKeyframing True # map (\<lambda>i. FieldDataPrepared i True) is) t
              = t\<lparr>undo_stack := undo_stack t @ [SetIsKeyframing True # map (\<lambda>i. FieldDataPrepared i True) is]\<rparr>"
    for "is" and t :: "'a session"
    by (rule push_transition [OF assms]) auto
  have p2: "push e (map (\<lambda>i. FieldDataPrepared i False) is @ [SetIsKeyframing False]) t
              = t\<lparr>undo_stack := undo_stack t @ [map (\<lambda>i. FieldDataPrepared i False) is @ [SetIsKeyframing False]]\<rparr>"
    for "is" and t :: "'a session"
    by (rule push_transition [OF assms]) auto
  show ?thesis
    by (simp add: SetKeyframingEnabled_def SetKeyframingInternal_transition [OF assms]
          prepare_fields_def p1 p2 Let_def)
qed

text \<open>
  Claim C9, as the code has it. On a row whose node is a transition
  \<^verbatim>\<open>SetKeyframingInternal\<close> changes nothing, so \<^verbatim>\<open>SetKeyframingEnabled\<close> never changes the
  flag. The call changes nothing at all when the requested value is the flag's, or when
  disabling is refused. Otherwise it still prepares every field and pushes one
  \<^verbatim>\<open>ComboAction\<close> on the undo stack.
\<close>

theorem C9_transition_keeps_flag:
  assumes "parent_type e = EFFECT_TYPE_TRANSITION"
  shows "SetKeyframingInternal e b s = s
    \<and> keyframing (row (SetKeyframingEnabled e en s)) = keyframing (row s)
    \<and> (en = keyframing (row s) \<or> \<not> en \<and> \<not> confirm e \<longrightarrow> SetKeyframingEnabled e en s = s)
    \<and> (en \<noteq> keyframing (row s) \<and> (en \<or> confirm e) \<longrightarrow>
         length (undo_stack (SetKeyframingEnabled e en s)) = Suc (length (undo_stack s))
         \<and> row_fields (row (SetKeyframingEnabled e en s))
             = map (PrepareDataForKeyframing e en) (row_fields (row s)))"
  using assms
  by (auto simp: SetKeyframingEnabled_transition SetKeyframingInternal_transition)

text \<open>
  The claim fails on the enable path: the row's node is a transition, the flag is false,
  and \<^verbatim>\<open>SetKeyframingEnabled(true)\<close> leaves a command on the undo stack that was empty.
\<close>

theorem C9_transition_enable_pushes:
  "parent_type transition_env = EFFECT_TYPE_TRANSITION
   \<and> undo_stack example_session = []
   \<and> undo_stack (SetKeyframingEnabled transition_env True example_session)
       = [[SetIsKeyframing True, FieldDataPrepared 0 True, FieldDataPrepared 1 True]]"
  by (simp add: transition_env_def example_sessions SetKeyframingInternal_def SetKeyframingEnabled_def
        prepare_fields_def push_def FieldCount_def Let_def)

theorem C9_transition_keeps_flag_witness:
  "parent_type transition_env = EFFECT_TYPE_TRANSITION
   \<and> SetKeyframingInternal transition_env True example_session = example_session
   \<and> \<not> keyframing (row (SetKeyframingEnabled transition_env True example_session))
   \<and> SetKeyframingEnabled transition_env False example_session = example_session
   \<and> length (undo_stack (SetKeyframingEnabled transition_env True example_session)) = 1"
proof -
  have t: "parent_type transition_env = EFFECT_TYPE_TRANSITION"
    by (simp add: transition_env_def)
  have f: "\<not> keyframing (row example_session)" "undo_stack example_session = []"
    by (simp_all add: example_sessions)
  from C9_transition_keeps_flag [OF t, of True example_session True] f t
  have a: "SetKeyframingInternal transition_env True example_session = example_session"
    and b: "\<not> keyframing (row (SetKeyframingEnabled transition_env True example_session))"
    and c: "length (undo_stack (SetKeyframingEnabled transition_env True example_session)) = 1"
    by simp_all
  from C9_transition_keeps_flag [OF t, of True example_session False] f
  have d: "SetKeyframingEnabled transition_env False example_session = example_session" by simp
  from t a b c d show ?thesis by simp
qed

subsection \<open>The signed order of \<^verbatim>\<open>long\<close>\<close>

lemma sle_refl: "(a::long) \<le>s a"
  by (simp add: word_sle_eq)

lemma sle_trans: "(a::long) \<le>s b \<Longrightarrow> b \<le>s c \<Longrightarrow> a \<le>s c"
  by (simp add: word_sle_eq)

lemma sle_antisym: "(a::long) \<le>s b \<Longrightarrow> b \<le>s a \<Longrightarrow> a = b"
  by (simp add: word_sle_eq word_eq_iff_signed [where ?'a = int])

lemma sless_sle: "(a::long) <s b \<Longrightarrow> a \<le>s b"
  by (simp add: word_sle_eq word_sless_alt)

lemma not_sless: "\<not> (a::long) <s b \<Longrightarrow> b \<le>s a"
  by (simp add: word_sle_eq word_sless_alt)

lemma LONG_MIN_least: "LONG_MIN \<le>s a"
  using sint_ge [of a] by (simp add: word_sle_eq LONG_MIN_def)

lemma LONG_MAX_greatest: "a \<le>s LONG_MAX"
  using sint_lt [of a] by (simp add: word_sle_eq LONG_MAX_def)

subsection \<open>The two searches\<close>

lemma fold_fold_concat: "fold (fold f) xss a = fold f (concat xss) a"
  by (induction xss arbitrary: a) simp_all

lemma previous_key_fold: "previous_key e fs = fold (prev_step (playhead e)) (converted_times e fs) LONG_MIN"
proof -
  let ?g = "\<lambda>k key. let comp = time k + time_adjustment e
                     in if comp <s playhead e then qMax comp key else key"
  have "previous_key e fs = fold (fold ?g) (map keyframes fs) LONG_MIN"
    by (simp add: previous_key_def fold_map comp_def)
  also have "\<dots> = fold ?g (concat (map keyframes fs)) LONG_MIN"
    by (rule fold_fold_concat)
  also have "?g = (\<lambda>k. prev_step (playhead e) (time k + (timeline_in e - clip_in e)))"
    by (intro ext) (simp add: prev_step_def time_adjustment_def Let_def)
  also have "fold (\<lambda>k. prev_step (playhead e) (time k + (timeline_in e - clip_in e)))
                (concat (map keyframes fs)) LONG_MIN
             = fold (prev_step (playhead e)) (converted_times e fs) LONG_MIN"
    by (simp add: converted_times_def fold_map comp_def)
  finally show ?thesis .
qed

lemma prev_scan:
  "(fold (prev_step p) cs acc = acc \<or> (fold (prev_step p) cs acc \<in> set cs \<and> fold (prev_step p) cs acc <s p))
   \<and> acc \<le>s fold (prev_step p) cs acc
   \<and> (\<forall>c \<in> set cs. c <s p \<longrightarrow> c \<le>s fold (prev_step p) cs acc)"
proof (induction cs arbitrary: acc)
  case Nil
  show ?case by (simp add: sle_refl)
next
  case (Cons c cs)
  let ?acc' = "prev_step p c acc"
  have a1: "acc \<le>s ?acc'" by (auto simp: prev_step_def qMax_def sle_refl sless_sle not_sless)
  have a2: "c <s p \<longrightarrow> c \<le>s ?acc'" by (auto simp: prev_step_def qMax_def sle_refl sless_sle)
  have a3: "?acc' = acc \<or> (?acc' = c \<and> c <s p)" by (auto simp: prev_step_def qMax_def)
  from Cons.IH [of ?acc'] a1 a2 a3 show ?case
    by (auto intro: sle_trans)
qed

lemma next_key_fold: "next_key e fs = fold (next_step (playhead e)) (converted_times e fs) LONG_MAX"
proof -
  let ?g = "\<lambda>k key. let comp = time k - clip_in e + timeline_in e
                     in if playhead e <s comp then qMin comp key else key"
  have "next_key e fs = fold (fold ?g) (map keyframes fs) LONG_MAX"
    by (simp add: next_key_def fold_map comp_def)
  also have "\<dots> = fold ?g (concat (map keyframes fs)) LONG_MAX"
    by (rule fold_fold_concat)
  also have "?g = (\<lambda>k. next_step (playhead e) (time k + (timeline_in e - clip_in e)))"
  proof (intro ext)
    fix k key
    have "time k - clip_in e + timeline_in e = time k + (timeline_in e - clip_in e)" by simp
    then show "?g k key = next_step (playhead e) (time k + (timeline_in e - clip_in e)) key"
      by (simp only: next_step_def Let_def)
  qed
  also have "fold (\<lambda>k. next_step (playhead e) (time k + (timeline_in e - clip_in e)))
                (concat (map keyframes fs)) LONG_MAX
             = fold (next_step (playhead e)) (converted_times e fs) LONG_MAX"
    by (simp add: converted_times_def fold_map comp_def)
  finally show ?thesis .
qed

lemma next_scan:
  "(fold (next_step p) cs acc = acc \<or> (fold (next_step p) cs acc \<in> set cs \<and> p <s fold (next_step p) cs acc))
   \<and> fold (next_step p) cs acc \<le>s acc
   \<and> (\<forall>c \<in> set cs. p <s c \<longrightarrow> fold (next_step p) cs acc \<le>s c)"
proof (induction cs arbitrary: acc)
  case Nil
  show ?case by (simp add: sle_refl)
next
  case (Cons c cs)
  let ?acc' = "next_step p c acc"
  have a1: "?acc' \<le>s acc" by (auto simp: next_step_def qMin_def sle_refl sless_sle not_sless)
  have a2: "p <s c \<longrightarrow> ?acc' \<le>s c" by (auto simp: next_step_def qMin_def sle_refl not_sless)
  have a3: "?acc' = acc \<or> (?acc' = c \<and> p <s c)" by (auto simp: next_step_def qMin_def)
  from Cons.IH [of ?acc'] a1 a2 a3 show ?case
    by (auto intro: sle_trans)
qed

lemma previous_key_cases:
  fixes e :: "('v, 't) env" and fs :: "'v EffectField list"
  defines "T \<equiv> set (converted_times e fs)" and "P \<equiv> playhead e" and "r \<equiv> previous_key e fs"
  shows "if \<exists>t \<in> T. t <s P \<and> t \<noteq> LONG_MIN
         then r \<noteq> LONG_MIN \<and> r \<in> T \<and> r <s P \<and> (\<forall>t \<in> T. t <s P \<longrightarrow> t \<le>s r)
         else r = LONG_MIN"
proof -
  from prev_scan [of P "converted_times e fs" LONG_MIN]
  have a: "r = LONG_MIN \<or> (r \<in> T \<and> r <s P)"
    and b: "\<forall>t \<in> T. t <s P \<longrightarrow> t \<le>s r"
    by (simp_all add: r_def T_def P_def previous_key_fold)
  show ?thesis
  proof (cases "\<exists>t \<in> T. t <s P \<and> t \<noteq> LONG_MIN")
    case True
    then obtain t where t: "t \<in> T" "t <s P" "t \<noteq> LONG_MIN" by blast
    with b have "t \<le>s r" by blast
    with t(3) have "r \<noteq> LONG_MIN" using sle_antisym [OF _ LONG_MIN_least] by blast
    with a b True show ?thesis by simp
  next
    case False
    with a show ?thesis by auto
  qed
qed

lemma next_key_cases:
  fixes e :: "('v, 't) env" and fs :: "'v EffectField list"
  defines "T \<equiv> set (converted_times e fs)" and "P \<equiv> playhead e" and "r \<equiv> next_key e fs"
  shows "if \<exists>t \<in> T. P <s t \<and> t \<noteq> LONG_MAX
         then r \<noteq> LONG_MAX \<and> r \<in> T \<and> P <s r \<and> (\<forall>t \<in> T. P <s t \<longrightarrow> r \<le>s t)
         else r = LONG_MAX"
proof -
  from next_scan [of P "converted_times e fs" LONG_MAX]
  have a: "r = LONG_MAX \<or> (r \<in> T \<and> P <s r)"
    and b: "\<forall>t \<in> T. P <s t \<longrightarrow> r \<le>s t"
    by (simp_all add: r_def T_def P_def next_key_fold)
  show ?thesis
  proof (cases "\<exists>t \<in> T. P <s t \<and> t \<noteq> LONG_MAX")
    case True
    then obtain t where t: "t \<in> T" "P <s t" "t \<noteq> LONG_MAX" by blast
    with b have "r \<le>s t" by blast
    with t(3) have "r \<noteq> LONG_MAX" using sle_antisym [OF LONG_MAX_greatest] by blast
    with a b True show ?thesis by simp
  next
    case False
    with a show ?thesis by auto
  qed
qed

text \<open>
  Claim C4, as the code has it. When some converted keyframe time lies strictly before
  the playhead and is not \<^verbatim>\<open>LONG_MIN\<close>, \<^verbatim>\<open>GoToPreviousKeyframe\<close> seeks to the greatest
  converted time strictly before the playhead; otherwise it does nothing. When some
  converted time lies strictly after the playhead and is not \<^verbatim>\<open>LONG_MAX\<close>,
  \<^verbatim>\<open>GoToNextKeyframe\<close> seeks to the least converted time strictly after the playhead;
  otherwise it does nothing. The time sought is never the playhead itself.
\<close>

theorem C4_jump_to_neighbouring_keyframe:
  "(if \<exists>t \<in> set (converted_times e (row_fields (row s))). t <s playhead e \<and> t \<noteq> LONG_MIN
    then \<exists>key \<in> set (converted_times e (row_fields (row s))).
           key <s playhead e
           \<and> (\<forall>t \<in> set (converted_times e (row_fields (row s))). t <s playhead e \<longrightarrow> t \<le>s key)
           \<and> GoToPreviousKeyframe e s = s\<lparr>calls := calls s @ [seek key]\<rparr>
    else GoToPreviousKeyframe e s = s)
   \<and> (if \<exists>t \<in> set (converted_times e (row_fields (row s))). playhead e <s t \<and> t \<noteq> LONG_MAX
    then \<exists>key \<in> set (converted_times e (row_fields (row s))).
           playhead e <s key
           \<and> (\<forall>t \<in> set (converted_times e (row_fields (row s))). playhead e <s t \<longrightarrow> key \<le>s t)
           \<and> GoToNextKeyframe e s = s\<lparr>calls := calls s @ [seek key]\<rparr>
    else GoToNextKeyframe e s = s)"
proof (intro conjI)
  show "if \<exists>t \<in> set (converted_times e (row_fields (row s))). t <s playhead e \<and> t \<noteq> LONG_MIN
    then \<exists>key \<in> set (converted_times e (row_fields (row s))).
           key <s playhead e
           \<and> (\<forall>t \<in> set (converted_times e (row_fields (row s))). t <s playhead e \<longrightarrow> t \<le>s key)
           \<and> GoToPreviousKeyframe e s = s\<lparr>calls := calls s @ [seek key]\<rparr>
    else GoToPreviousKeyframe e s = s"
    using previous_key_cases [of e "row_fields (row s)"]
    by (auto simp: GoToPreviousKeyframe_def Let_def split: if_splits)
  show "if \<exists>t \<in> set (converted_times e (row_fields (row s))). playhead e <s t \<and> t \<noteq> LONG_MAX
    then \<exists>key \<in> set (converted_times e (row_fields (row s))).
           playhead e <s key
           \<and> (\<forall>t \<in> set (converted_times e (row_fields (row s))). playhead e <s t \<longrightarrow> key \<le>s t)
           \<and> GoToNextKeyframe e s = s\<lparr>calls := calls s @ [seek key]\<rparr>
    else GoToNextKeyframe e s = s"
    using next_key_cases [of e "row_fields (row s)"]
    by (auto simp: GoToNextKeyframe_def Let_def split: if_splits)
qed

lemma example_session_converted_times: "converted_times example_env (row_fields (row example_session)) = [5, 10, 15, 10, 23]"
  by (simp add: converted_times_def example_session_def example_env_def example_field_def)

theorem C4_jump_to_neighbouring_keyframe_witness:
  "converted_times example_env (row_fields (row example_session)) = [5, 10, 15, 10, 23]
   \<and> playhead example_env = 10
   \<and> GoToPreviousKeyframe example_env example_session = example_session\<lparr>calls := calls example_session @ [seek 5]\<rparr>
   \<and> GoToNextKeyframe example_env example_session = example_session\<lparr>calls := calls example_session @ [seek 15]\<rparr>"
proof -
  have p: "playhead example_env = 10" by (simp add: example_env_def)
  have lt: "(5::long) <s 10" "\<not> (10::long) <s 10" "\<not> (15::long) <s 10" "\<not> (23::long) <s 10"
           "(10::long) <s 15" "(10::long) <s 23" "\<not> (10::long) <s 5" "\<not> (23::long) \<le>s 15"
           "(5::long) \<noteq> LONG_MIN" "(15::long) \<noteq> LONG_MAX"
    by (simp_all add: word_sless_alt word_sle_eq LONG_MIN_def LONG_MAX_def)
  from C4_jump_to_neighbouring_keyframe [of example_env example_session]
  have a: "GoToPreviousKeyframe example_env example_session = example_session\<lparr>calls := calls example_session @ [seek 5]\<rparr>"
   and b: "GoToNextKeyframe example_env example_session = example_session\<lparr>calls := calls example_session @ [seek 15]\<rparr>"
    unfolding example_session_converted_times p using lt by (auto split: if_splits)
  from example_session_converted_times p a b show ?thesis by simp
qed

text \<open>
  The claim fails where the search's start value is a keyframe time: with keyframes at
  \<^verbatim>\<open>LONG_MIN\<close> and \<^verbatim>\<open>LONG_MAX\<close>, offset 0 and the playhead at 0, a keyframe lies
  strictly before the playhead and one strictly after it, and neither call seeks.
\<close>

theorem C4_keyframe_at_sentinel_not_reached:
  "converted_times sentinel_env (row_fields (row sentinel_session)) = [LONG_MIN, LONG_MAX]
   \<and> LONG_MIN <s playhead sentinel_env
   \<and> playhead sentinel_env <s LONG_MAX
   \<and> GoToPreviousKeyframe sentinel_env sentinel_session = sentinel_session
   \<and> GoToNextKeyframe sentinel_env sentinel_session = sentinel_session"
  by (simp add: converted_times_def sentinel_env_def sentinel_session_def example_env_def example_field_def
        GoToPreviousKeyframe_def GoToNextKeyframe_def previous_key_def next_key_def
        time_adjustment_def qMax_def qMin_def Let_def word_sless_alt LONG_MIN_def LONG_MAX_def)

subsection \<open>Removing indices in descending order\<close>

lemma removeAt_Suc: "removeAt (Suc i) (x # xs) = x # removeAt i xs"
  by (simp add: removeAt_def)

lemma removeAt_0: "removeAt 0 (x # xs) = xs"
  by (simp add: removeAt_def)

lemma fold_removeAt_Suc: "fold removeAt (map Suc is) (x # xs) = x # fold removeAt is xs"
  by (induction "is" arbitrary: xs) (simp_all add: removeAt_Suc)

lemma upt_0_Suc: "[0..<Suc n] = 0 # map Suc [0..<n]"
  by (simp add: upt_conv_Cons map_Suc_upt del: upt_Suc)

lemma hit_indices_Cons:
  "filter (\<lambda>i. Q ((x # xs) ! i)) [0..<length (x # xs)]
     = (if Q x then [0] else []) @ map Suc (filter (\<lambda>i. Q (xs ! i)) [0..<length xs])"
  by (simp add: upt_0_Suc filter_map comp_def del: upt_Suc)

lemma remove_hits_descending:
  "fold removeAt (rev (filter (\<lambda>i. Q (xs ! i)) [0..<length xs])) xs = filter (\<lambda>x. \<not> Q x) xs"
proof (induction xs)
  case Nil
  show ?case by simp
next
  case (Cons x xs)
  show ?case
    unfolding hit_indices_Cons
    by (simp add: rev_map fold_removeAt_Suc Cons.IH removeAt_0)
qed

subsection \<open>The sorting loops\<close>

lemma set_insert_reverse: "set (insert_reverse x ys) = insert x (set ys)"
  by (induction ys) auto

lemma distinct_insert_reverse: "distinct (insert_reverse x ys) = (x \<notin> set ys \<and> distinct ys)"
  by (induction ys) (auto simp: set_insert_reverse)

lemma sorted_insert_reverse:
  "sorted_wrt (\<lambda>a b. snd b \<le> snd a) ys \<Longrightarrow> sorted_wrt (\<lambda>a b. snd b \<le> snd a) (insert_reverse x ys)"
  by (induction ys) (auto simp: set_insert_reverse)

lemma fold_insert_reverse:
  "set (fold insert_reverse ks acc) = set ks \<union> set acc
   \<and> (distinct (ks @ acc) \<longrightarrow> distinct (fold insert_reverse ks acc))
   \<and> (sorted_wrt (\<lambda>a b. snd b \<le> snd a) acc \<longrightarrow> sorted_wrt (\<lambda>a b. snd b \<le> snd a) (fold insert_reverse ks acc))"
proof (induction ks arbitrary: acc)
  case Nil
  show ?case by simp
next
  case (Cons k ks)
  from Cons.IH [of "insert_reverse k acc"] show ?case
    by (auto simp: set_insert_reverse distinct_insert_reverse sorted_insert_reverse)
qed

lemma sort_reverse_props:
  "set (sort_reverse ks) = set ks"
  "distinct ks \<Longrightarrow> distinct (sort_reverse ks)"
  "sorted_wrt (\<lambda>a b. snd b \<le> snd a) (sort_reverse ks)"
  using fold_insert_reverse [of ks "[]"] by (simp_all add: sort_reverse_def)

subsection \<open>The keyframes cached at the playhead\<close>

lemma keys_at_playhead_alt:
  "keys_at_playhead e fs = concat (map (\<lambda>j. map (Pair j) (hits e (fs ! j))) [0..<length fs])"
  by (simp add: keys_at_playhead_def hits_def)

lemma set_keys_at_playhead:
  "set (keys_at_playhead e fs) =
     {(j, i). j < length fs \<and> i < length (keyframes (fs ! j))
              \<and> time (keyframes (fs ! j) ! i) + time_adjustment e = playhead e}"
  by (auto simp: keys_at_playhead_def)

lemma distinct_tagged_concat:
  assumes "distinct js" and "\<And>j. distinct (h j)"
  shows "distinct (concat (map (\<lambda>j. map (Pair j) (h j)) js))"
  using assms(1)
proof (induction js)
  case Nil
  show ?case by simp
next
  case (Cons j js)
  then show ?case using assms(2) by (auto simp: distinct_map inj_on_def)
qed

lemma distinct_keys_at_playhead: "distinct (keys_at_playhead e fs)"
  unfolding keys_at_playhead_alt
  by (rule distinct_tagged_concat) (simp_all add: hits_def)

lemma keys_at_playhead_empty:
  "(keys_at_playhead e fs = []) =
     (\<forall>f \<in> set fs. \<forall>k \<in> set (keyframes f). time k + time_adjustment e \<noteq> playhead e)"
proof
  assume "keys_at_playhead e fs = []"
  then have none: "set (keys_at_playhead e fs) = {}" by simp
  show "\<forall>f \<in> set fs. \<forall>k \<in> set (keyframes f). time k + time_adjustment e \<noteq> playhead e"
  proof (intro ballI notI)
    fix f k assume "f \<in> set fs" "k \<in> set (keyframes f)" "time k + time_adjustment e = playhead e"
    then obtain j i where "j < length fs" "fs ! j = f" "i < length (keyframes f)" "keyframes f ! i = k"
      by (auto simp: in_set_conv_nth)
    with \<open>time k + time_adjustment e = playhead e\<close> have "(j, i) \<in> set (keys_at_playhead e fs)"
      by (simp add: set_keys_at_playhead)
    with none show False by simp
  qed
next
  assume all: "\<forall>f \<in> set fs. \<forall>k \<in> set (keyframes f). time k + time_adjustment e \<noteq> playhead e"
  have "set (keys_at_playhead e fs) = {}"
  proof (rule ccontr)
    assume "set (keys_at_playhead e fs) \<noteq> {}"
    then obtain j i where "j < length fs" "i < length (keyframes (fs ! j))"
      "time (keyframes (fs ! j) ! i) + time_adjustment e = playhead e"
      by (auto simp: set_keys_at_playhead)
    moreover from this have "fs ! j \<in> set fs" "keyframes (fs ! j) ! i \<in> set (keyframes (fs ! j))"
      by simp_all
    ultimately show False using all by blast
  qed
  then show "keys_at_playhead e fs = []" by simp
qed

lemma filter_eq_upt: "filter (\<lambda>x. x = j) [0..<n] = (if j < n then [j] else [])"
  by (induction n) auto

lemma filter_tagged_concat:
  "map snd (filter (\<lambda>p. fst p = j) (concat (map (\<lambda>j. map (Pair j) (h j)) js)))
     = concat (map h (filter (\<lambda>x. x = j) js))"
  by (induction js) (auto simp: filter_map comp_def)

lemma filter_keys_at_playhead:
  assumes "j < length fs"
  shows "map snd (filter (\<lambda>p. fst p = j) (keys_at_playhead e fs)) = hits e (fs ! j)"
  using assms by (simp add: keys_at_playhead_alt filter_tagged_concat filter_eq_upt)

lemma sorted_hits: "sorted (hits e f)" "distinct (hits e f)"
  unfolding hits_def by (rule sorted_wrt_filter) simp_all

text \<open>The deletes of one field, in the order of the sorted list.\<close>

lemma deletes_of_field:
  assumes "j < length fs"
  shows "map snd (filter (\<lambda>p. fst p = j) (sort_reverse (keys_at_playhead e fs))) = rev (hits e (fs ! j))"
proof -
  let ?ks = "keys_at_playhead e fs"
  let ?l = "map snd (filter (\<lambda>p. fst p = j) (sort_reverse ?ks))"
  have d: "distinct (sort_reverse ?ks)"
    by (rule sort_reverse_props(2)) (rule distinct_keys_at_playhead)
  have dl: "distinct ?l"
    using d by (auto simp: distinct_map inj_on_def)
  have "sorted_wrt (\<lambda>a b. snd b \<le> snd a) (filter (\<lambda>p. fst p = j) (sort_reverse ?ks))"
    by (rule sorted_wrt_filter) (rule sort_reverse_props(3))
  then have sl: "sorted_wrt (\<lambda>a b. b \<le> a) ?l" by (simp add: sorted_wrt_map)
  then have "sorted (rev ?l)" by (simp add: sorted_wrt_rev)
  moreover have "distinct (rev ?l)" using dl by simp
  moreover have "set (rev ?l) = set (hits e (fs ! j))"
  proof -
    have "set ?l = snd ` {p \<in> set ?ks. fst p = j}" by (simp add: sort_reverse_props(1))
    also have "\<dots> = set (map snd (filter (\<lambda>p. fst p = j) ?ks))" by simp
    also have "\<dots> = set (hits e (fs ! j))" by (simp only: filter_keys_at_playhead [OF assms])
    finally show ?thesis by simp
  qed
  ultimately have "rev ?l = hits e (fs ! j)"
    using sorted_hits [of e "fs ! j"] by (auto intro: sorted_distinct_set_unique)
  then have "rev (rev ?l) = rev (hits e (fs ! j))" by simp
  then show ?thesis by simp
qed

subsection \<open>Applying the deletes\<close>

lemma length_delete_keyframe [simp]: "length (delete_keyframe j i fs) = length fs"
  by (simp add: delete_keyframe_def)

lemma fold_redo_deletes:
  "fold (redo e) (map (\<lambda>(j, i). KeyframeDelete j i) ps) s
     = s\<lparr>row := (row s)\<lparr>row_fields := fold (\<lambda>(j, i). delete_keyframe j i) ps (row_fields (row s))\<rparr>\<rparr>"
proof (induction ps arbitrary: s)
  case Nil
  show ?case by simp
next
  case (Cons p ps)
  show ?case by (cases p) (simp add: Cons.IH)
qed

lemma length_fold_deletes [simp]:
  "length (fold (\<lambda>(j, i). delete_keyframe j i) ps fs) = length fs"
  by (induction ps arbitrary: fs) (auto simp: split_beta)

lemma nth_fold_deletes:
  assumes "j < length fs"
  shows "fold (\<lambda>(j, i). delete_keyframe j i) ps fs ! j
           = (fs ! j)\<lparr>keyframes := fold removeAt (map snd (filter (\<lambda>p. fst p = j) ps)) (keyframes (fs ! j))\<rparr>"
  using assms
proof (induction ps arbitrary: fs)
  case Nil
  show ?case by simp
next
  case (Cons p ps)
  obtain a i where p: "p = (a, i)" by (cases p)
  have len: "j < length (delete_keyframe a i fs)" using Cons.prems by simp
  show ?case
  proof (cases "a = j")
    case True
    with Cons.prems have "delete_keyframe a i fs ! j = (fs ! j)\<lparr>keyframes := removeAt i (keyframes (fs ! j))\<rparr>"
      by (simp add: delete_keyframe_def)
    with Cons.IH [OF len] True p show ?thesis by simp
  next
    case False
    then have "delete_keyframe a i fs ! j = fs ! j" by (simp add: delete_keyframe_def)
    with Cons.IH [OF len] False p show ?thesis by simp
  qed
qed

lemma deletes_remove_hits:
  "fold (\<lambda>(j, i). delete_keyframe j i) (sort_reverse (keys_at_playhead e fs)) fs
     = map (\<lambda>f. f\<lparr>keyframes := filter (\<lambda>k. time k + time_adjustment e \<noteq> playhead e) (keyframes f)\<rparr>) fs"
proof (rule nth_equalityI)
  show "length (fold (\<lambda>(j, i). delete_keyframe j i) (sort_reverse (keys_at_playhead e fs)) fs)
          = length (map (\<lambda>f. f\<lparr>keyframes := filter (\<lambda>k. time k + time_adjustment e \<noteq> playhead e) (keyframes f)\<rparr>) fs)"
    by simp
next
  fix j assume "j < length (fold (\<lambda>(j, i). delete_keyframe j i) (sort_reverse (keys_at_playhead e fs)) fs)"
  then have j: "j < length fs" by simp
  have "fold removeAt (rev (hits e (fs ! j))) (keyframes (fs ! j))
          = filter (\<lambda>k. time k + time_adjustment e \<noteq> playhead e) (keyframes (fs ! j))"
    unfolding hits_def
    by (rule remove_hits_descending [of "\<lambda>k. time k + time_adjustment e = playhead e"])
  with j show "fold (\<lambda>(j, i). delete_keyframe j i) (sort_reverse (keys_at_playhead e fs)) fs ! j
        = map (\<lambda>f. f\<lparr>keyframes := filter (\<lambda>k. time k + time_adjustment e \<noteq> playhead e) (keyframes f)\<rparr>) fs ! j"
    by (simp add: nth_fold_deletes deletes_of_field)
qed

lemma fold_redo_data_changes: "fold (redo e) (map KeyframeDataChange js) s = s"
  by (induction js) simp_all

lemma ToggleKeyframe_create:
  assumes "keys_at_playhead e (row_fields (row s)) = []"
  shows "ToggleKeyframe e s =
     s\<lparr>row := (row s)\<lparr>row_fields :=
            map (\<lambda>f. SetValueAt e (Now e) (GetValueAt e f (Now e)) f) (row_fields (row s))\<rparr>,
       undo_stack := undo_stack s @ [map KeyframeDataChange [0..<length (row_fields (row s))]],
       calls := calls s @ [update_keyframes, update_ui]\<rparr>"
  using assms
  by (simp add: ToggleKeyframe_def SetKeyframeOnAllFields_def push_def Let_def
        fold_redo_data_changes FieldCount_def)

lemma ToggleKeyframe_delete:
  assumes "keys_at_playhead e (row_fields (row s)) \<noteq> []"
  shows "ToggleKeyframe e s =
     s\<lparr>row := (row s)\<lparr>row_fields :=
            map (\<lambda>f. f\<lparr>keyframes := filter (\<lambda>k. time k + time_adjustment e \<noteq> playhead e) (keyframes f)\<rparr>)
              (row_fields (row s))\<rparr>,
       undo_stack := undo_stack s @
          [map (\<lambda>(j, i). KeyframeDelete j i) (sort_reverse (keys_at_playhead e (row_fields (row s))))],
       calls := calls s @ [update_ui]\<rparr>"
  using assms
  by (simp add: ToggleKeyframe_def push_def Let_def fold_redo_deletes deletes_remove_hits)

lemma strictly_descending:
  "sorted_wrt (\<lambda>a b. b \<le> a) (xs :: nat list) \<Longrightarrow> distinct xs \<Longrightarrow> sorted_wrt (\<lambda>a b. b < a) xs"
  by (induction xs) (auto simp: le_less)

lemma deletes_descending_per_field:
  "sorted_wrt (\<lambda>a b. b < a) (map snd (filter (\<lambda>p. fst p = j) (sort_reverse (keys_at_playhead e fs))))"
proof -
  let ?l = "filter (\<lambda>p. fst p = j) (sort_reverse (keys_at_playhead e fs))"
  have d: "distinct (sort_reverse (keys_at_playhead e fs))"
    by (rule sort_reverse_props(2)) (rule distinct_keys_at_playhead)
  then have dl: "distinct (map snd ?l)" by (auto simp: distinct_map inj_on_def)
  have "sorted_wrt (\<lambda>a b. snd b \<le> snd a) ?l"
    by (rule sorted_wrt_filter) (rule sort_reverse_props(3))
  then have sl: "sorted_wrt (\<lambda>a b. b \<le> a) (map snd ?l)" by (simp add: sorted_wrt_map)
  from strictly_descending [OF sl dl] show ?thesis .
qed

subsection \<open>The toggle\<close>

lemma set_keyframe_new:
  assumes "\<forall>k \<in> set ks. time k \<noteq> t"
  shows "length (set_keyframe t v ks) = Suc (length ks)
         \<and> \<lparr>time = t, data = v\<rparr> \<in> set (set_keyframe t v ks)
         \<and> filter (\<lambda>k. time k \<noteq> t) (set_keyframe t v ks) = ks"
  using assms
proof (induction ks)
  case Nil
  show ?case by simp
next
  case (Cons k ks)
  then have "filter (\<lambda>k. time k \<noteq> t) ks = ks" by (simp add: filter_id_conv)
  with Cons show ?case by auto
qed

lemma ToggleKeyframe_create_fields:
  assumes "keys_at_playhead e (row_fields (row s)) = []" and "j < length (row_fields (row s))"
  shows "row_fields (row (ToggleKeyframe e s)) ! j
           = SetValueAt e (Now e) (GetValueAt e (row_fields (row s) ! j) (Now e)) (row_fields (row s) ! j)"
  using assms(2) by (simp add: ToggleKeyframe_create [OF assms(1)])

lemma create_with_keyframing:
  assumes none: "\<forall>f \<in> set fs. \<forall>k \<in> set (keyframes f). time k + adj \<noteq> p"
      and now: "t + adj = p" and j: "j < length fs"
  shows "\<forall>k \<in> set (keyframes (fs ! j)). time k \<noteq> t"
proof
  fix k assume "k \<in> set (keyframes (fs ! j))"
  with none j have "time k + adj \<noteq> p" by auto
  with now show "time k \<noteq> t" by auto
qed

text \<open>
  Claim C5, as the code has it. When no keyframe of any field sits at the playhead,
  \<^verbatim>\<open>ToggleKeyframe\<close> writes to every field its value at the current time
  (\<^verbatim>\<open>SetValueAt(Now, GetValueAt(Now))\<close>) and pushes one \<^verbatim>\<open>ComboAction\<close> holding one
  \<^verbatim>\<open>KeyframeDataChange\<close> per field. With the spec's \<^verbatim>\<open>SetValueAt\<close> that gives every field
  exactly one new keyframe, at the current time and with that value, when the row is
  keyframing and the current time is the playhead's; when the row is not keyframing it
  leaves every field's keyframes as they are and overwrites the static value. Otherwise
  (some keyframe sits at the playhead) it pushes one \<^verbatim>\<open>ComboAction\<close> of
  \<^verbatim>\<open>KeyframeDelete\<close>s: one for every keyframe at the playhead and no other, none twice,
  the indices never increasing along the list and strictly decreasing within each field;
  applying it in that order leaves every field with exactly its keyframes that are not
  at the playhead.
\<close>

theorem C5_toggle_keyframe:
  "(if \<forall>f \<in> set (row_fields (row s)). \<forall>k \<in> set (keyframes f).
         time k + time_adjustment e \<noteq> playhead e
    then row_fields (row (ToggleKeyframe e s))
           = map (\<lambda>f. SetValueAt e (Now e) (GetValueAt e f (Now e)) f) (row_fields (row s))
         \<and> undo_stack (ToggleKeyframe e s)
           = undo_stack s @ [map KeyframeDataChange [0..<length (row_fields (row s))]]
         \<and> (SetValueAt e = EffectField_SetValueAt frame (keyframing (row s)) \<longrightarrow>
              (\<forall>j < length (row_fields (row s)).
                 if keyframing (row s)
                 then frame (Now e) + time_adjustment e = playhead e \<longrightarrow>
                        length (keyframes (row_fields (row (ToggleKeyframe e s)) ! j))
                          = Suc (length (keyframes (row_fields (row s) ! j)))
                      \<and> \<lparr>time = frame (Now e), data = GetValueAt e (row_fields (row s) ! j) (Now e)\<rparr>
                          \<in> set (keyframes (row_fields (row (ToggleKeyframe e s)) ! j))
                      \<and> filter (\<lambda>k. time k \<noteq> frame (Now e))
                            (keyframes (row_fields (row (ToggleKeyframe e s)) ! j))
                          = keyframes (row_fields (row s) ! j)
                 else keyframes (row_fields (row (ToggleKeyframe e s)) ! j)
                          = keyframes (row_fields (row s) ! j)
                      \<and> static_value (row_fields (row (ToggleKeyframe e s)) ! j)
                          = GetValueAt e (row_fields (row s) ! j) (Now e)))
    else row_fields (row (ToggleKeyframe e s))
           = map (\<lambda>f. f\<lparr>keyframes :=
                          filter (\<lambda>k. time k + time_adjustment e \<noteq> playhead e) (keyframes f)\<rparr>)
               (row_fields (row s))
         \<and> undo_stack (ToggleKeyframe e s)
           = undo_stack s @ [map (\<lambda>(j, i). KeyframeDelete j i)
                               (sort_reverse (keys_at_playhead e (row_fields (row s))))]
         \<and> set (sort_reverse (keys_at_playhead e (row_fields (row s))))
           = {(j, i). j < length (row_fields (row s))
                      \<and> i < length (keyframes (row_fields (row s) ! j))
                      \<and> time (keyframes (row_fields (row s) ! j) ! i) + time_adjustment e = playhead e}
         \<and> distinct (sort_reverse (keys_at_playhead e (row_fields (row s))))
         \<and> sorted_wrt (\<lambda>a b. snd b \<le> snd a) (sort_reverse (keys_at_playhead e (row_fields (row s))))
         \<and> (\<forall>j. sorted_wrt (\<lambda>a b. b < a)
                   (map snd (filter (\<lambda>p. fst p = j)
                      (sort_reverse (keys_at_playhead e (row_fields (row s))))))))"
proof (cases "keys_at_playhead e (row_fields (row s)) = []")
  case True
  then have none: "\<forall>f \<in> set (row_fields (row s)). \<forall>k \<in> set (keyframes f).
               time k + time_adjustment e \<noteq> playhead e"
    using keys_at_playhead_empty [of e "row_fields (row s)"] by blast
  have spec: "\<forall>j < length (row_fields (row s)).
                 if keyframing (row s)
                 then frame (Now e) + time_adjustment e = playhead e \<longrightarrow>
                        length (keyframes (row_fields (row (ToggleKeyframe e s)) ! j))
                          = Suc (length (keyframes (row_fields (row s) ! j)))
                      \<and> \<lparr>time = frame (Now e), data = GetValueAt e (row_fields (row s) ! j) (Now e)\<rparr>
                          \<in> set (keyframes (row_fields (row (ToggleKeyframe e s)) ! j))
                      \<and> filter (\<lambda>k. time k \<noteq> frame (Now e))
                            (keyframes (row_fields (row (ToggleKeyframe e s)) ! j))
                          = keyframes (row_fields (row s) ! j)
                 else keyframes (row_fields (row (ToggleKeyframe e s)) ! j)
                          = keyframes (row_fields (row s) ! j)
                      \<and> static_value (row_fields (row (ToggleKeyframe e s)) ! j)
                          = GetValueAt e (row_fields (row s) ! j) (Now e)"
    if sv: "SetValueAt e = EffectField_SetValueAt frame (keyframing (row s))"
  proof (intro allI impI)
    fix j assume j: "j < length (row_fields (row s))"
    let ?f = "row_fields (row s) ! j"
    have fj: "row_fields (row (ToggleKeyframe e s)) ! j
                = EffectField_SetValueAt frame (keyframing (row s)) (Now e) (GetValueAt e ?f (Now e)) ?f"
      using ToggleKeyframe_create_fields [OF True j] by (simp add: sv)
    show "if keyframing (row s)
                 then frame (Now e) + time_adjustment e = playhead e \<longrightarrow>
                        length (keyframes (row_fields (row (ToggleKeyframe e s)) ! j))
                          = Suc (length (keyframes (row_fields (row s) ! j)))
                      \<and> \<lparr>time = frame (Now e), data = GetValueAt e (row_fields (row s) ! j) (Now e)\<rparr>
                          \<in> set (keyframes (row_fields (row (ToggleKeyframe e s)) ! j))
                      \<and> filter (\<lambda>k. time k \<noteq> frame (Now e))
                            (keyframes (row_fields (row (ToggleKeyframe e s)) ! j))
                          = keyframes (row_fields (row s) ! j)
                 else keyframes (row_fields (row (ToggleKeyframe e s)) ! j)
                          = keyframes (row_fields (row s) ! j)
                      \<and> static_value (row_fields (row (ToggleKeyframe e s)) ! j)
                          = GetValueAt e (row_fields (row s) ! j) (Now e)"
    proof (cases "keyframing (row s)")
      case False
      then show ?thesis by (simp add: fj EffectField_SetValueAt_def)
    next
      case kf: True
      show ?thesis
      proof (simp only: kf if_True, intro impI)
        assume now: "frame (Now e) + time_adjustment e = playhead e"
        from create_with_keyframing [OF none now j]
        have "\<forall>k \<in> set (keyframes ?f). time k \<noteq> frame (Now e)" .
        from set_keyframe_new [OF this, of "GetValueAt e ?f (Now e)"]
        show "length (keyframes (row_fields (row (ToggleKeyframe e s)) ! j))
                          = Suc (length (keyframes (row_fields (row s) ! j)))
                      \<and> \<lparr>time = frame (Now e), data = GetValueAt e (row_fields (row s) ! j) (Now e)\<rparr>
                          \<in> set (keyframes (row_fields (row (ToggleKeyframe e s)) ! j))
                      \<and> filter (\<lambda>k. time k \<noteq> frame (Now e))
                            (keyframes (row_fields (row (ToggleKeyframe e s)) ! j))
                          = keyframes (row_fields (row s) ! j)"
          by (simp add: fj EffectField_SetValueAt_def kf)
      qed
    qed
  qed
  have fields: "row_fields (row (ToggleKeyframe e s))
           = map (\<lambda>f. SetValueAt e (Now e) (GetValueAt e f (Now e)) f) (row_fields (row s))"
    by (simp add: ToggleKeyframe_create [OF True])
  have stack: "undo_stack (ToggleKeyframe e s)
           = undo_stack s @ [map KeyframeDataChange [0..<length (row_fields (row s))]]"
    by (simp add: ToggleKeyframe_create [OF True])
  show ?thesis
    unfolding if_P [OF none] using fields stack spec by blast
next
  case False
  then have some: "\<not> (\<forall>f \<in> set (row_fields (row s)). \<forall>k \<in> set (keyframes f).
               time k + time_adjustment e \<noteq> playhead e)"
    using keys_at_playhead_empty [of e "row_fields (row s)"] by blast
  show ?thesis
    unfolding if_not_P [OF some]
    by (simp add: ToggleKeyframe_delete [OF False] sort_reverse_props set_keys_at_playhead
          distinct_keys_at_playhead deletes_descending_per_field)
qed

lemmas keyframing_examples = keyframing_session_def keyframing_env_def static_env_def later_env_def

theorem C5_toggle_keyframe_witness:
  "row_fields (row (ToggleKeyframe example_env example_session))
     = [example_field [\<lparr>time = 2, data = 1\<rparr>, \<lparr>time = 12, data = 3\<rparr>],
        example_field [\<lparr>time = 20, data = 5\<rparr>]]
   \<and> undo_stack (ToggleKeyframe example_env example_session)
     = [[KeyframeDelete 0 1, KeyframeDelete 1 0]]
   \<and> undo_stack (ToggleKeyframe keyframing_env keyframing_session)
     = [[KeyframeDataChange 0, KeyframeDataChange 1]]
   \<and> length (keyframes (row_fields (row (ToggleKeyframe keyframing_env keyframing_session)) ! 0)) = 4
   \<and> \<lparr>time = 30, data = 3\<rparr>
       \<in> set (keyframes (row_fields (row (ToggleKeyframe keyframing_env keyframing_session)) ! 0))
   \<and> length (keyframes (row_fields (row (ToggleKeyframe keyframing_env keyframing_session)) ! 1)) = 3
   \<and> \<lparr>time = 30, data = 3\<rparr>
       \<in> set (keyframes (row_fields (row (ToggleKeyframe keyframing_env keyframing_session)) ! 1))
   \<and> keyframes (row_fields (row (ToggleKeyframe static_env example_session)) ! 0)
     = [\<lparr>time = 2, data = 1\<rparr>, \<lparr>time = 7, data = 2\<rparr>, \<lparr>time = 12, data = 3\<rparr>]
   \<and> static_value (row_fields (row (ToggleKeyframe static_env example_session)) ! 0) = 3"
proof -
  have hit: "\<not> (\<forall>f \<in> set (row_fields (row example_session)). \<forall>k \<in> set (keyframes f).
                 time k + time_adjustment example_env \<noteq> playhead example_env)"
    by (simp add: example_sessions time_adjustment_def)
  have keys: "sort_reverse (keys_at_playhead example_env (row_fields (row example_session)))
                = [(0, 1), (1, 0)]"
    by (simp add: example_sessions keys_at_playhead_def sort_reverse_def time_adjustment_def
          upt_conv_Cons)
  from C5_toggle_keyframe [where s = example_session and e = example_env] hit
  have a: "row_fields (row (ToggleKeyframe example_env example_session))
             = map (\<lambda>f. f\<lparr>keyframes :=
                  filter (\<lambda>k. time k + time_adjustment example_env \<noteq> playhead example_env) (keyframes f)\<rparr>)
                 (row_fields (row example_session))"
    and b: "undo_stack (ToggleKeyframe example_env example_session)
             = undo_stack example_session @ [map (\<lambda>(j, i). KeyframeDelete j i)
                 (sort_reverse (keys_at_playhead example_env (row_fields (row example_session))))]"
    by simp_all
  have a': "row_fields (row (ToggleKeyframe example_env example_session))
     = [example_field [\<lparr>time = 2, data = 1\<rparr>, \<lparr>time = 12, data = 3\<rparr>],
        example_field [\<lparr>time = 20, data = 5\<rparr>]]"
    unfolding a by (simp add: example_sessions time_adjustment_def)
  have b': "undo_stack (ToggleKeyframe example_env example_session) = [[KeyframeDelete 0 1, KeyframeDelete 1 0]]"
    unfolding b keys by (simp add: example_session_def)

  have missk: "\<forall>f \<in> set (row_fields (row keyframing_session)). \<forall>k \<in> set (keyframes f).
                 time k + time_adjustment keyframing_env \<noteq> playhead keyframing_env"
    by (simp add: example_sessions keyframing_examples time_adjustment_def)
  have svk: "SetValueAt keyframing_env = EffectField_SetValueAt of_nat (keyframing (row keyframing_session))"
    by (simp add: keyframing_examples)
  have kf: "keyframing (row keyframing_session)"
    by (simp add: keyframing_examples)
  have nowk: "of_nat (Now keyframing_env) + time_adjustment keyframing_env = playhead keyframing_env"
    by (simp add: example_sessions keyframing_examples time_adjustment_def)
  have lenk: "length (row_fields (row keyframing_session)) = 2"
             "undo_stack keyframing_session = []"
             "keyframes (row_fields (row keyframing_session) ! 0)
                = [\<lparr>time = 2, data = 1\<rparr>, \<lparr>time = 7, data = 2\<rparr>, \<lparr>time = 12, data = 3\<rparr>]"
             "keyframes (row_fields (row keyframing_session) ! Suc 0)
                = [\<lparr>time = 7, data = 4\<rparr>, \<lparr>time = 20, data = 5\<rparr>]"
             "GetValueAt keyframing_env (row_fields (row keyframing_session) ! 0) (Now keyframing_env) = 3"
             "GetValueAt keyframing_env (row_fields (row keyframing_session) ! Suc 0) (Now keyframing_env) = 3"
             "of_nat (Now keyframing_env) = (30 :: long)"
    by (simp_all add: example_sessions keyframing_examples)
  note tk = C5_toggle_keyframe [where s = keyframing_session and e = keyframing_env and frame = of_nat,
                    unfolded if_P [OF missk]]
  from tk have c: "undo_stack (ToggleKeyframe keyframing_env keyframing_session)
                     = [[KeyframeDataChange 0, KeyframeDataChange 1]]"
    by (simp add: lenk upt_conv_Cons)
  from tk svk have allk: "\<forall>j < length (row_fields (row keyframing_session)).
      if keyframing (row keyframing_session)
      then of_nat (Now keyframing_env) + time_adjustment keyframing_env = playhead keyframing_env \<longrightarrow>
             length (keyframes (row_fields (row (ToggleKeyframe keyframing_env keyframing_session)) ! j))
               = Suc (length (keyframes (row_fields (row keyframing_session) ! j)))
           \<and> \<lparr>time = of_nat (Now keyframing_env),
               data = GetValueAt keyframing_env (row_fields (row keyframing_session) ! j) (Now keyframing_env)\<rparr>
               \<in> set (keyframes (row_fields (row (ToggleKeyframe keyframing_env keyframing_session)) ! j))
           \<and> filter (\<lambda>k. time k \<noteq> of_nat (Now keyframing_env))
                 (keyframes (row_fields (row (ToggleKeyframe keyframing_env keyframing_session)) ! j))
               = keyframes (row_fields (row keyframing_session) ! j)
      else keyframes (row_fields (row (ToggleKeyframe keyframing_env keyframing_session)) ! j)
               = keyframes (row_fields (row keyframing_session) ! j)
           \<and> static_value (row_fields (row (ToggleKeyframe keyframing_env keyframing_session)) ! j)
               = GetValueAt keyframing_env (row_fields (row keyframing_session) ! j) (Now keyframing_env)"
    by blast
  from allk [rule_format, of 0] kf nowk
  have k0: "length (keyframes (row_fields (row (ToggleKeyframe keyframing_env keyframing_session)) ! 0)) = 4"
           "\<lparr>time = 30, data = 3\<rparr>
              \<in> set (keyframes (row_fields (row (ToggleKeyframe keyframing_env keyframing_session)) ! 0))"
    by (simp_all add: lenk)
  from allk [rule_format, of 1] kf nowk
  have k1: "length (keyframes (row_fields (row (ToggleKeyframe keyframing_env keyframing_session)) ! 1)) = 3"
           "\<lparr>time = 30, data = 3\<rparr>
              \<in> set (keyframes (row_fields (row (ToggleKeyframe keyframing_env keyframing_session)) ! 1))"
    by (simp_all add: lenk)

  have misss: "\<forall>f \<in> set (row_fields (row example_session)). \<forall>k \<in> set (keyframes f).
                 time k + time_adjustment static_env \<noteq> playhead static_env"
    by (simp add: example_sessions keyframing_examples time_adjustment_def)
  have svs: "SetValueAt static_env = EffectField_SetValueAt of_nat (keyframing (row example_session))"
    by (simp add: example_sessions keyframing_examples)
  have nkf: "\<not> keyframing (row example_session)"
    by (simp add: example_sessions)
  have lens: "length (row_fields (row example_session)) = 2"
             "keyframes (row_fields (row example_session) ! 0)
                = [\<lparr>time = 2, data = 1\<rparr>, \<lparr>time = 7, data = 2\<rparr>, \<lparr>time = 12, data = 3\<rparr>]"
             "GetValueAt static_env (row_fields (row example_session) ! 0) (Now static_env) = 3"
    by (simp_all add: example_sessions keyframing_examples)
  note ts = C5_toggle_keyframe [where s = example_session and e = static_env and frame = of_nat,
                    unfolded if_P [OF misss]]
  from ts svs have alls: "\<forall>j < length (row_fields (row example_session)).
      if keyframing (row example_session)
      then of_nat (Now static_env) + time_adjustment static_env = playhead static_env \<longrightarrow>
             length (keyframes (row_fields (row (ToggleKeyframe static_env example_session)) ! j))
               = Suc (length (keyframes (row_fields (row example_session) ! j)))
           \<and> \<lparr>time = of_nat (Now static_env),
               data = GetValueAt static_env (row_fields (row example_session) ! j) (Now static_env)\<rparr>
               \<in> set (keyframes (row_fields (row (ToggleKeyframe static_env example_session)) ! j))
           \<and> filter (\<lambda>k. time k \<noteq> of_nat (Now static_env))
                 (keyframes (row_fields (row (ToggleKeyframe static_env example_session)) ! j))
               = keyframes (row_fields (row example_session) ! j)
      else keyframes (row_fields (row (ToggleKeyframe static_env example_session)) ! j)
               = keyframes (row_fields (row example_session) ! j)
           \<and> static_value (row_fields (row (ToggleKeyframe static_env example_session)) ! j)
               = GetValueAt static_env (row_fields (row example_session) ! j) (Now static_env)"
    by blast
  from alls [rule_format, of 0] nkf
  have s0: "keyframes (row_fields (row (ToggleKeyframe static_env example_session)) ! 0)
     = [\<lparr>time = 2, data = 1\<rparr>, \<lparr>time = 7, data = 2\<rparr>, \<lparr>time = 12, data = 3\<rparr>]"
     "static_value (row_fields (row (ToggleKeyframe static_env example_session)) ! 0) = 3"
    by (simp_all add: lens)
  from a' b' c k0 k1 s0 show ?thesis by blast
qed

text \<open>
  The claim fails on a row that is not keyframing: no keyframe sits at the playhead, a
  command is pushed, and with the spec's \<^verbatim>\<open>SetValueAt\<close> no field gains a keyframe.
\<close>

theorem C5_no_keyframe_when_not_keyframing:
  "\<not> keyframing (row example_session)
   \<and> keys_at_playhead static_env (row_fields (row example_session)) = []
   \<and> SetValueAt static_env = EffectField_SetValueAt of_nat (keyframing (row example_session))
   \<and> map keyframes (row_fields (row (ToggleKeyframe static_env example_session)))
       = map keyframes (row_fields (row example_session))
   \<and> undo_stack (ToggleKeyframe static_env example_session)
       = [[KeyframeDataChange 0, KeyframeDataChange 1]]"
  by (simp add: example_sessions static_env_def later_env_def keys_at_playhead_def time_adjustment_def
        ToggleKeyframe_def SetKeyframeOnAllFields_def push_def FieldCount_def Let_def
        EffectField_SetValueAt_def upt_conv_Cons)

end
